theory Spec2Isabelle
  imports Main "HOL-Library.Word"
begin

unbundle bit_operations_syntax

section \<open>Position model\<close>

text \<open>
  Modelled from the spec: \<open>RowID\<close>, \<open>ChunkID\<close>, \<open>ChunkOffset\<close> and \<open>PosList\<close>
  are declared in types.hpp and pos_list.hpp, which are not among the sources. A \<open>RowID\<close>
  is "(ChunkID, ChunkOffset), both non-negative integers", a \<open>PosList\<close> an "ordered
  sequence of RowIDs". Both integers are unsigned and 32 bits wide, so the arithmetic that
  the block loop does on chunk offsets wraps modulo \<open>2 ^ 32\<close>.
\<close>

type_synonym ChunkID = "32 word"
type_synonym ChunkOffset = "32 word"

datatype RowID = RowID (chunk_id: ChunkID) (row_offset: ChunkOffset)

type_synonym PosList = "RowID list"

text \<open>
  A segment position is what dereferencing a segment iterator yields: the value, the null
  flag and the chunk offset (the accessors \<open>value()\<close>, \<open>is_null()\<close>,
  \<open>chunk_offset()\<close> of the source).
\<close>

record 'a SegmentPosition =
  pos_value :: 'a
  is_null :: bool
  chunk_offset :: ChunkOffset

text \<open>
  Modelled from the spec: \<open>PredicateCondition\<close> and \<open>OrderByMode\<close> are declared in
  types.hpp, which is not among the sources. The sources name the six comparison
  conditions and the four sort modes; the other conditions are those outside the scope of
  a scan over a sorted segment ("IS-NULL/IS-NOT-NULL and LIKE-style predicates" and the
  set-valued ones).
\<close>

datatype PredicateCondition =
    Equals | NotEquals | LessThan | LessThanEquals | GreaterThan | GreaterThanEquals
  | Between | In | NotIn | Like | NotLike | IsNull | IsNotNull

datatype OrderByMode = Ascending | Descending | AscendingNullsLast | DescendingNullsLast

text \<open>The two fatal errors raised through \<open>Fail\<close>.\<close>

datatype scan_error =
    UnsupportedPredicateCondition
  | NonPointAccessibleWithPositionFilter

section \<open>Iterator ranges and the binary searches of the standard library\<close>

text \<open>
  Iterators into a segment are modelled as indices into the list of its positions; the
  half-open iterator range \<open>[b, e)\<close> handed to a functor is the list of positions it runs
  over. The source only builds ranges with \<open>b \<le> e\<close> on a sorted segment (see
  \<open>handle_not_equals_ranges\<close> for the bounds); a range with \<open>e < b\<close>, which C++ leaves
  undefined, is empty here.
\<close>

definition iterator_range :: "'p list \<Rightarrow> nat \<Rightarrow> nat \<Rightarrow> 'p list" where
  "iterator_range xs b e = take (e - b) (drop b xs)"

text \<open>
  \<open>std::lower_bound(first, last, value, cmp)\<close> and \<open>std::upper_bound\<close> as the
  standard library implements them: a bisection on the length of the remaining range. The
  comparator of \<open>lower_bound\<close> takes the element first, the one of \<open>upper_bound\<close> takes
  the searched value first. Every element the loops read lies in \<open>[first, last)\<close>, which
  is inside the list whenever \<open>last\<close> is.
\<close>

function lower_bound_loop :: "'p list \<Rightarrow> nat \<Rightarrow> nat \<Rightarrow> 'v \<Rightarrow> ('p \<Rightarrow> 'v \<Rightarrow> bool) \<Rightarrow> nat" where
  "lower_bound_loop xs first len v cmp =
     (if len = 0 then first
      else let half = len div 2; middle = first + half
           in if cmp (xs ! middle) v
              then lower_bound_loop xs (middle + 1) (len - half - 1) v cmp
              else lower_bound_loop xs first half v cmp)"
  by pat_completeness auto
termination
  by (relation "measure (\<lambda>(xs, first, len, v, cmp). len)") auto

definition lower_bound :: "'p list \<Rightarrow> nat \<Rightarrow> nat \<Rightarrow> 'v \<Rightarrow> ('p \<Rightarrow> 'v \<Rightarrow> bool) \<Rightarrow> nat" where
  "lower_bound xs first_it last_it v cmp = lower_bound_loop xs first_it (last_it - first_it) v cmp"

function upper_bound_loop :: "'p list \<Rightarrow> nat \<Rightarrow> nat \<Rightarrow> 'v \<Rightarrow> ('v \<Rightarrow> 'p \<Rightarrow> bool) \<Rightarrow> nat" where
  "upper_bound_loop xs first len v cmp =
     (if len = 0 then first
      else let half = len div 2; middle = first + half
           in if cmp v (xs ! middle)
              then upper_bound_loop xs first half v cmp
              else upper_bound_loop xs (middle + 1) (len - half - 1) v cmp)"
  by pat_completeness auto
termination
  by (relation "measure (\<lambda>(xs, first, len, v, cmp). len)") auto

definition upper_bound :: "'p list \<Rightarrow> nat \<Rightarrow> nat \<Rightarrow> 'v \<Rightarrow> ('v \<Rightarrow> 'p \<Rightarrow> bool) \<Rightarrow> nat" where
  "upper_bound xs first_it last_it v cmp = upper_bound_loop xs first_it (last_it - first_it) v cmp"

declare lower_bound_loop.simps [simp del] upper_bound_loop.simps [simp del]

section \<open>SortedSegmentSearch\<close>

text \<open>
  The state of the class: the two iterators (indices into \<open>positions\<close>, the sequence the
  iterators were taken from), the predicate condition, the search value and the two flags
  the constructor derives from the \<open>OrderByMode\<close>.
\<close>

record 'a SortedSegmentSearch =
  positions :: "'a SegmentPosition list"
  begin_it :: nat
  end_it :: nat
  predicate_condition :: PredicateCondition
  search_value :: 'a
  is_ascending :: bool
  is_nulls_first :: bool

definition make_SortedSegmentSearch ::
  "'a SegmentPosition list \<Rightarrow> OrderByMode \<Rightarrow> PredicateCondition \<Rightarrow> 'a \<Rightarrow> 'a SortedSegmentSearch" where
  "make_SortedSegmentSearch xs order_by cond v =
     \<lparr> positions = xs, begin_it = 0, end_it = length xs,
       predicate_condition = cond, search_value = v,
       is_ascending = (order_by = Ascending \<or> order_by = AscendingNullsLast),
       is_nulls_first = (order_by = Ascending \<or> order_by = Descending) \<rparr>"

definition get_first_bound :: "('a::linorder) SortedSegmentSearch \<Rightarrow> nat" where
  "get_first_bound s =
     (if is_ascending s
      then lower_bound (positions s) (begin_it s) (end_it s) (search_value s)
             (\<lambda>segment_position v. pos_value segment_position < v)
      else lower_bound (positions s) (begin_it s) (end_it s) (search_value s)
             (\<lambda>segment_position v. pos_value segment_position > v))"

definition get_last_bound :: "('a::linorder) SortedSegmentSearch \<Rightarrow> nat" where
  "get_last_bound s =
     (if is_ascending s
      then upper_bound (positions s) (begin_it s) (end_it s) (search_value s)
             (\<lambda>v segment_position. pos_value segment_position > v)
      else upper_bound (positions s) (begin_it s) (end_it s) (search_value s)
             (\<lambda>v segment_position. pos_value segment_position < v))"

text \<open>
  \<open>_set_begin_and_end\<close>: \<open>Equals\<close> first, then one switch per sort direction whose
  default branch fails.
\<close>

definition set_begin_and_end ::
  "('a::linorder) SortedSegmentSearch \<Rightarrow> scan_error + 'a SortedSegmentSearch" where
  "set_begin_and_end s =
     (if predicate_condition s = Equals
      then (let s1 = s\<lparr>begin_it := get_first_bound s\<rparr>
            in Inr (s1\<lparr>end_it := get_last_bound s1\<rparr>))
      else if is_ascending s then
        (case predicate_condition s of
           GreaterThanEquals \<Rightarrow> Inr (s\<lparr>begin_it := get_first_bound s\<rparr>)
         | GreaterThan \<Rightarrow> Inr (s\<lparr>begin_it := get_last_bound s\<rparr>)
         | LessThanEquals \<Rightarrow> Inr (s\<lparr>end_it := get_last_bound s\<rparr>)
         | LessThan \<Rightarrow> Inr (s\<lparr>end_it := get_first_bound s\<rparr>)
         | _ \<Rightarrow> Inl UnsupportedPredicateCondition)
      else
        (case predicate_condition s of
           LessThanEquals \<Rightarrow> Inr (s\<lparr>begin_it := get_first_bound s\<rparr>)
         | LessThan \<Rightarrow> Inr (s\<lparr>begin_it := get_last_bound s\<rparr>)
         | GreaterThanEquals \<Rightarrow> Inr (s\<lparr>end_it := get_last_bound s\<rparr>)
         | GreaterThan \<Rightarrow> Inr (s\<lparr>end_it := get_first_bound s\<rparr>)
         | _ \<Rightarrow> Inl UnsupportedPredicateCondition))"

text \<open>
  \<open>_handle_not_equals\<close>: three early outs, then the functor runs over the join of the
  two surviving ranges.
\<close>

definition handle_not_equals ::
  "('a SegmentPosition list \<Rightarrow> 'r) \<Rightarrow> ('a::linorder) SortedSegmentSearch \<Rightarrow> 'r" where
  "handle_not_equals functor s =
     (let first_occurrence = get_first_bound s in
      if first_occurrence = end_it s
      then functor (iterator_range (positions s) (begin_it s) (end_it s))
      else let last_occurrence = get_last_bound s in
        if last_occurrence = end_it s
        then functor (iterator_range (positions s) (begin_it s) first_occurrence)
        else if first_occurrence = begin_it s
        then functor (iterator_range (positions s) last_occurrence (end_it s))
        else functor (iterator_range (positions s) (begin_it s) first_occurrence
                      @ iterator_range (positions s) last_occurrence (end_it s)))"

text \<open>The first step of \<open>scan_sorted_segment\<close>: one binary search removes the null run.\<close>

definition exclude_nulls :: "'a SortedSegmentSearch \<Rightarrow> 'a SortedSegmentSearch" where
  "exclude_nulls s =
     (if is_nulls_first s
      then s\<lparr>begin_it := lower_bound (positions s) (begin_it s) (end_it s) False
                 (\<lambda>segment_position _. is_null segment_position)\<rparr>
      else s\<lparr>end_it := lower_bound (positions s) (begin_it s) (end_it s) True
                 (\<lambda>segment_position _. \<not> is_null segment_position)\<rparr>)"

definition scan_sorted_segment ::
  "('a SegmentPosition list \<Rightarrow> 'r) \<Rightarrow> ('a::linorder) SortedSegmentSearch \<Rightarrow> scan_error + 'r" where
  "scan_sorted_segment functor s0 =
     (let s = exclude_nulls s0 in
      if predicate_condition s = NotEquals
      then Inr (handle_not_equals functor s)
      else (case set_begin_and_end s of
              Inl e \<Rightarrow> Inl e
            | Inr s' \<Rightarrow> Inr (functor (iterator_range (positions s') (begin_it s') (end_it s')))))"

section \<open>The hot loops of the table scan\<close>

text \<open>\<open>_unary_scan\<close>: null positions are skipped, the others are tested by the functor.\<close>

fun unary_scan :: "('a \<Rightarrow> bool) \<Rightarrow> 'a SegmentPosition list \<Rightarrow> ChunkID \<Rightarrow> PosList \<Rightarrow> PosList" where
  "unary_scan func [] cid matches_out = matches_out"
| "unary_scan func (left # rest) cid matches_out =
     (if is_null left then unary_scan func rest cid matches_out
      else if func (pos_value left)
        then unary_scan func rest cid (matches_out @ [RowID cid (chunk_offset left)])
        else unary_scan func rest cid matches_out)"

text \<open>
  \<open>_unary_scan_with_value\<close>. The match flag of one position is the expression
  \<open>(!LeftIsNullable | !left.is_null()) & func(left.value(), right_value)\<close>, which both
  the block loop and the remainder loop evaluate.
\<close>

definition matches :: "bool \<Rightarrow> ('a \<Rightarrow> 'b \<Rightarrow> bool) \<Rightarrow> 'b \<Rightarrow> 'a SegmentPosition \<Rightarrow> bool" where
  "matches LeftIsNullable func right_value left =
     ((\<not> LeftIsNullable \<or> \<not> is_null left) \<and> func (pos_value left) right_value)"

text \<open>The remainder loop: the scan "the easy way".\<close>

fun scan_remainder ::
  "bool \<Rightarrow> ('a \<Rightarrow> 'b \<Rightarrow> bool) \<Rightarrow> 'a SegmentPosition list \<Rightarrow> 'b \<Rightarrow> ChunkID \<Rightarrow> PosList \<Rightarrow> PosList" where
  "scan_remainder LeftIsNullable func [] right_value cid matches_out = matches_out"
| "scan_remainder LeftIsNullable func (left # rest) right_value cid matches_out =
     (if matches LeftIsNullable func right_value left
      then scan_remainder LeftIsNullable func rest right_value cid
             (matches_out @ [RowID cid (chunk_offset left)])
      else scan_remainder LeftIsNullable func rest right_value cid matches_out)"

text \<open>
  The block size: \<open>SIMD_SIZE / sizeof(ValueID)\<close>. \<open>ValueID\<close> is declared in types.hpp,
  so its size is a parameter here (it is 4 in the repository, which gives blocks of 16).
\<close>

definition SIMD_SIZE :: nat where
  "SIMD_SIZE = 64"

definition BUFFER_SIZE :: "nat \<Rightarrow> nat" where
  "BUFFER_SIZE sizeof_ValueID = SIMD_SIZE div sizeof_ValueID"

text \<open>
  The first inner loop writes \<open>matches * (left.chunk_offset() + 1)\<close> into the buffer, in
  unsigned 32-bit arithmetic: zero stands for "no match".
\<close>

definition buffer_entry :: "bool \<Rightarrow> ('a \<Rightarrow> 'b \<Rightarrow> bool) \<Rightarrow> 'b \<Rightarrow> 'a SegmentPosition \<Rightarrow> ChunkOffset" where
  "buffer_entry LeftIsNullable func right_value left =
     of_bool (matches LeftIsNullable func right_value left) * (chunk_offset left + 1)"

definition fill_buffer ::
  "bool \<Rightarrow> ('a \<Rightarrow> 'b \<Rightarrow> bool) \<Rightarrow> 'b \<Rightarrow> 'a SegmentPosition list \<Rightarrow> ChunkOffset list" where
  "fill_buffer LeftIsNullable func right_value block =
     map (buffer_entry LeftIsNullable func right_value) block"

text \<open>
  The second inner loop sets bit \<open>i\<close> of \<open>match_positions\<close> (a \<open>size_t\<close>) when
  \<open>buffer[i]\<close> is not zero. The shifted flag is an \<open>int\<close>, which is converted to
  \<open>size_t\<close> with its sign; the shift is defined in C++ for \<open>i < 31\<close>, which covers
  every block size of at most 31 (the theorems below assume no more).
\<close>

fun collect_match_positions :: "ChunkOffset list \<Rightarrow> nat \<Rightarrow> 64 word \<Rightarrow> 64 word" where
  "collect_match_positions [] i match_positions = match_positions"
| "collect_match_positions (entry # buffer) i match_positions =
     collect_match_positions buffer (i + 1)
       (match_positions OR scast (push_bit i (of_bool (entry \<noteq> 0) :: 32 word)))"

text \<open>
  The third inner loop walks the set bits of \<open>match_positions\<close> from the lowest one and
  appends \<open>buffer[buffer_index] - 1\<close> for each. Only bits below the block size are set,
  so \<open>buffer_index\<close> stays inside the buffer.
\<close>

function expand_matches :: "64 word \<Rightarrow> nat \<Rightarrow> ChunkOffset list \<Rightarrow> ChunkID \<Rightarrow> PosList \<Rightarrow> PosList" where
  "expand_matches match_positions buffer_index buffer cid matches_out =
     (if match_positions = 0 then matches_out
      else expand_matches (drop_bit 1 match_positions) (buffer_index + 1) buffer cid
             (if (match_positions AND 1) \<noteq> 0
              then matches_out @ [RowID cid ((buffer ! buffer_index) - 1)]
              else matches_out))"
  by pat_completeness auto
termination
proof (relation "measure (\<lambda>(match_positions, buffer_index, buffer, cid, matches_out). unat match_positions)")
  show "wf (measure (\<lambda>(match_positions, buffer_index, buffer, cid, matches_out). unat match_positions))"
    by simp
next
  fix match_positions :: "64 word" and buffer_index :: nat and buffer :: "ChunkOffset list"
    and cid :: ChunkID and matches_out :: PosList
  assume nz: "match_positions \<noteq> 0"
  then have "0 < unat match_positions" by (simp add: unat_gt_0)
  then have "unat match_positions div 2 < unat match_positions" by simp
  then have "unat (drop_bit 1 match_positions) < unat match_positions"
    by (simp add: drop_bit_eq_div unat_div)
  then show "((drop_bit 1 match_positions, buffer_index + 1, buffer, cid,
                if (match_positions AND 1) \<noteq> 0
                then matches_out @ [RowID cid ((buffer ! buffer_index) - 1)] else matches_out),
               (match_positions, buffer_index, buffer, cid, matches_out))
             \<in> measure (\<lambda>(match_positions, buffer_index, buffer, cid, matches_out). unat match_positions)"
    by simp
qed

declare expand_matches.simps [simp del]

text \<open>One round of the \<open>while\<close> loop over a block of \<open>BUFFER_SIZE\<close> positions.\<close>

definition scan_block ::
  "bool \<Rightarrow> ('a \<Rightarrow> 'b \<Rightarrow> bool) \<Rightarrow> 'a SegmentPosition list \<Rightarrow> 'b \<Rightarrow> ChunkID \<Rightarrow> PosList \<Rightarrow> PosList" where
  "scan_block LeftIsNullable func block right_value cid matches_out =
     (let buffer = fill_buffer LeftIsNullable func right_value block;
          match_positions = collect_match_positions buffer 0 0
      in expand_matches match_positions 0 buffer cid matches_out)"

text \<open>
  The \<open>while (left_end - left_it > BUFFER_SIZE)\<close> loop. It returns the positions that
  are left for the remainder loop together with the matches so far. With a block size of
  zero the loop of the source never ends on a non-empty range, hence the option type.
\<close>

partial_function (option) scan_blocks ::
  "nat \<Rightarrow> bool \<Rightarrow> ('a \<Rightarrow> 'b \<Rightarrow> bool) \<Rightarrow> 'a SegmentPosition list \<Rightarrow> 'b \<Rightarrow> ChunkID \<Rightarrow> PosList
   \<Rightarrow> ('a SegmentPosition list \<times> PosList) option" where
  "scan_blocks buffer_size LeftIsNullable func left_range right_value cid matches_out =
     (if length left_range > buffer_size
      then scan_blocks buffer_size LeftIsNullable func (drop buffer_size left_range) right_value cid
             (scan_block LeftIsNullable func (take buffer_size left_range) right_value cid matches_out)
      else Some (left_range, matches_out))"

declare scan_blocks.simps [code]

text \<open>
  The whole function. The block loop is compiled in only when \<open>IS_DEBUG\<close> is off and the
  iterator is vectorizable; the remainder loop always runs.
\<close>

definition unary_scan_with_value ::
  "bool \<Rightarrow> bool \<Rightarrow> nat \<Rightarrow> bool \<Rightarrow> ('a \<Rightarrow> 'b \<Rightarrow> bool) \<Rightarrow> 'a SegmentPosition list \<Rightarrow> 'b \<Rightarrow> ChunkID
   \<Rightarrow> PosList \<Rightarrow> PosList option" where
  "unary_scan_with_value IS_DEBUG IsVectorizable sizeof_ValueID LeftIsNullable func left_range
     right_value cid matches_out =
     (if \<not> IS_DEBUG \<and> IsVectorizable
      then (case scan_blocks (BUFFER_SIZE sizeof_ValueID) LeftIsNullable func left_range
                   right_value cid matches_out of
              None \<Rightarrow> None
            | Some (rest, matches_out') \<Rightarrow>
                Some (scan_remainder LeftIsNullable func rest right_value cid matches_out'))
      else Some (scan_remainder LeftIsNullable func left_range right_value cid matches_out))"

text \<open>
  \<open>_binary_scan\<close>. The right range is given by its begin iterator only; if it is shorter
  than the left range the source reads past its end, which has no defined result.
\<close>

fun binary_scan ::
  "('a \<Rightarrow> 'b \<Rightarrow> bool) \<Rightarrow> 'a SegmentPosition list \<Rightarrow> 'b SegmentPosition list \<Rightarrow> ChunkID \<Rightarrow> PosList
   \<Rightarrow> PosList option" where
  "binary_scan func [] right_range cid matches_out = Some matches_out"
| "binary_scan func (left # rest) [] cid matches_out = None"
| "binary_scan func (left # rest) (right # right_rest) cid matches_out =
     (if is_null left \<or> is_null right then binary_scan func rest right_rest cid matches_out
      else if func (pos_value left) (pos_value right)
        then binary_scan func rest right_rest cid (matches_out @ [RowID cid (chunk_offset left)])
        else binary_scan func rest right_rest cid matches_out)"

section \<open>Segment iteration\<close>

text \<open>
  Modelled from the spec: the iterables (segment_iterables.hpp, any_segment_iterable.hpp,
  create_iterable_from_segment.hpp) are not among the sources. An iterable yields the
  positions of its segment in order; it "optionally supports point-access iteration
  restricted to a supplied position filter", which is \<open>None\<close> for an iterable that is not
  point accessible. The data type tag of a segment is a type parameter.
\<close>

record 'a SegmentIterable =
  all_positions :: "'a SegmentPosition list"
  filtered_positions :: "(PosList \<Rightarrow> 'a SegmentPosition list) option"

record ('d, 'a) BaseSegment =
  data_type :: 'd
  iterable :: "'a SegmentIterable"

definition create_iterable_from_segment :: "('d, 'a) BaseSegment \<Rightarrow> 'a SegmentIterable" where
  "create_iterable_from_segment segment = iterable segment"

definition is_point_accessible_segment_iterable :: "'a SegmentIterable \<Rightarrow> bool" where
  "is_point_accessible_segment_iterable it = (filtered_positions it \<noteq> None)"

definition with_iterators :: "'a SegmentIterable \<Rightarrow> ('a SegmentPosition list \<Rightarrow> 'r) \<Rightarrow> 'r" where
  "with_iterators it functor = functor (all_positions it)"

text \<open>
  Modelled from the spec: point-access iteration of an iterable. "If a position filter is
  supplied but the segment's iteration abstraction does not support point access, the
  call fails with a capability-not-supported error".
\<close>

definition with_iterators_filtered ::
  "'a SegmentIterable \<Rightarrow> PosList \<Rightarrow> ('a SegmentPosition list \<Rightarrow> 'r) \<Rightarrow> scan_error + 'r" where
  "with_iterators_filtered it position_filter functor =
     (case filtered_positions it of
        None \<Rightarrow> Inl NonPointAccessibleWithPositionFilter
      | Some access \<Rightarrow> Inr (functor (access position_filter)))"

text \<open>
  Modelled from the spec: the type-erased iterable (any_segment_iterable.hpp, not among
  the sources) wraps the iterable of the segment and iterates through it, with the same
  two entry points; the two resolution strategies are "behaviorally identical", so a
  position filter over a wrapped iterable without point access fails in the same way.
\<close>

datatype 'a AnySegmentIterable = AnySegmentIterable (unerased: "'a SegmentIterable")

definition create_any_segment_iterable :: "('d, 'a) BaseSegment \<Rightarrow> 'a AnySegmentIterable" where
  "create_any_segment_iterable segment = AnySegmentIterable (create_iterable_from_segment segment)"

definition any_with_iterators :: "'a AnySegmentIterable \<Rightarrow> ('a SegmentPosition list \<Rightarrow> 'r) \<Rightarrow> 'r" where
  "any_with_iterators any_it functor = with_iterators (unerased any_it) functor"

definition any_with_iterators_filtered ::
  "'a AnySegmentIterable \<Rightarrow> PosList \<Rightarrow> ('a SegmentPosition list \<Rightarrow> 'r) \<Rightarrow> scan_error + 'r" where
  "any_with_iterators_filtered any_it position_filter functor =
     with_iterators_filtered (unerased any_it) position_filter functor"

text \<open>
  The template parameter \<open>T\<close> is the data type of the segment or \<open>ResolveDataTypeTag\<close>;
  \<open>type_erasure\<close> and \<open>IS_DEBUG\<close> choose between the type-erased and the statically
  specialized iteration.
\<close>

datatype 'd TypeParameter = ResolveDataTypeTag | ColumnDataType 'd

datatype SegmentIterationTypeErasure = OnlyInDebug | Always

function segment_with_iterators ::
  "bool \<Rightarrow> 'd TypeParameter \<Rightarrow> SegmentIterationTypeErasure \<Rightarrow> ('d, 'a) BaseSegment
   \<Rightarrow> ('a SegmentPosition list \<Rightarrow> 'r) \<Rightarrow> 'r" where
  "segment_with_iterators IS_DEBUG ResolveDataTypeTag type_erasure base_segment functor =
     segment_with_iterators IS_DEBUG (ColumnDataType (data_type base_segment)) type_erasure
       base_segment functor"
| "segment_with_iterators IS_DEBUG (ColumnDataType T) type_erasure base_segment functor =
     (if IS_DEBUG \<or> type_erasure = Always
      then any_with_iterators (create_any_segment_iterable base_segment) functor
      else with_iterators (create_iterable_from_segment base_segment) functor)"
  by pat_completeness auto
termination
  by (relation "measure (\<lambda>(IS_DEBUG, T, type_erasure, base_segment, functor).
        if T = ResolveDataTypeTag then 1 else 0)") auto

function segment_with_iterators_filtered ::
  "bool \<Rightarrow> 'd TypeParameter \<Rightarrow> SegmentIterationTypeErasure \<Rightarrow> ('d, 'a) BaseSegment
   \<Rightarrow> PosList option \<Rightarrow> ('a SegmentPosition list \<Rightarrow> 'r) \<Rightarrow> scan_error + 'r" where
  "segment_with_iterators_filtered IS_DEBUG T type_erasure base_segment None functor =
     Inr (segment_with_iterators IS_DEBUG T type_erasure base_segment functor)"
| "segment_with_iterators_filtered IS_DEBUG ResolveDataTypeTag type_erasure base_segment
     (Some position_filter) functor =
     segment_with_iterators_filtered IS_DEBUG (ColumnDataType (data_type base_segment)) type_erasure
       base_segment (Some position_filter) functor"
| "segment_with_iterators_filtered IS_DEBUG (ColumnDataType T) type_erasure base_segment
     (Some position_filter) functor =
     (if IS_DEBUG \<or> type_erasure = Always
      then any_with_iterators_filtered (create_any_segment_iterable base_segment) position_filter functor
      else (let segment_iterable = create_iterable_from_segment base_segment
            in if is_point_accessible_segment_iterable segment_iterable
               then with_iterators_filtered segment_iterable position_filter functor
               else Inl NonPointAccessibleWithPositionFilter))"
  by pat_completeness auto
termination
  by (relation "measure (\<lambda>(IS_DEBUG, T, type_erasure, base_segment, position_filter, functor).
        if T = ResolveDataTypeTag then 1 else 0)") auto

text \<open>
  \<open>segment_for_each\<close> calls the functor on every position of the range, in order; the
  effect of the functor is a state transformer here.
\<close>

definition segment_for_each_filtered ::
  "bool \<Rightarrow> 'd TypeParameter \<Rightarrow> SegmentIterationTypeErasure \<Rightarrow> ('d, 'a) BaseSegment
   \<Rightarrow> PosList option \<Rightarrow> ('a SegmentPosition \<Rightarrow> 's \<Rightarrow> 's) \<Rightarrow> 's \<Rightarrow> scan_error + 's" where
  "segment_for_each_filtered IS_DEBUG T type_erasure base_segment position_filter functor st =
     segment_with_iterators_filtered IS_DEBUG T type_erasure base_segment position_filter
       (\<lambda>ps. fold functor ps st)"

definition segment_for_each ::
  "bool \<Rightarrow> 'd TypeParameter \<Rightarrow> SegmentIterationTypeErasure \<Rightarrow> ('d, 'a) BaseSegment
   \<Rightarrow> ('a SegmentPosition \<Rightarrow> 's \<Rightarrow> 's) \<Rightarrow> 's \<Rightarrow> 's" where
  "segment_for_each IS_DEBUG T type_erasure base_segment functor st =
     segment_with_iterators IS_DEBUG T type_erasure base_segment (\<lambda>ps. fold functor ps st)"

section \<open>Specification vocabulary\<close>

text \<open>
  Modelled from the spec: the comparison functor equivalent to a predicate condition
  (the source builds it in with_comparator, which is not among the sources). Only the
  six comparison conditions have one.
\<close>

fun comparator :: "PredicateCondition \<Rightarrow> ('a::linorder) \<Rightarrow> 'a \<Rightarrow> bool" where
  "comparator Equals a b = (a = b)"
| "comparator NotEquals a b = (a \<noteq> b)"
| "comparator LessThan a b = (a < b)"
| "comparator LessThanEquals a b = (a \<le> b)"
| "comparator GreaterThan a b = (a > b)"
| "comparator GreaterThanEquals a b = (a \<ge> b)"
| "comparator _ a b = False"

definition is_comparison :: "PredicateCondition \<Rightarrow> bool" where
  "is_comparison cond =
     (cond \<in> {Equals, NotEquals, LessThan, LessThanEquals, GreaterThan, GreaterThanEquals})"

text \<open>
  A range is sorted per an \<open>OrderByMode\<close> when its nulls are one run at the begin
  (\<open>Ascending\<close>, \<open>Descending\<close>) or at the end (the \<open>NullsLast\<close> modes) and the values of
  the other positions ascend or descend (not strictly).
\<close>

definition nulls_placed :: "OrderByMode \<Rightarrow> 'a SegmentPosition list \<Rightarrow> bool" where
  "nulls_placed order_by xs =
     (if order_by = Ascending \<or> order_by = Descending
      then xs = filter is_null xs @ filter (\<lambda>p. \<not> is_null p) xs
      else xs = filter (\<lambda>p. \<not> is_null p) xs @ filter is_null xs)"

definition values_ordered :: "OrderByMode \<Rightarrow> ('a::linorder) SegmentPosition list \<Rightarrow> bool" where
  "values_ordered order_by xs =
     (let vs = map pos_value (filter (\<lambda>p. \<not> is_null p) xs)
      in if order_by = Ascending \<or> order_by = AscendingNullsLast then sorted vs else sorted (rev vs))"

definition sorted_per :: "OrderByMode \<Rightarrow> ('a::linorder) SegmentPosition list \<Rightarrow> bool" where
  "sorted_per order_by xs = (nulls_placed order_by xs \<and> values_ordered order_by xs)"

text \<open>The functor of a caller that emits every position of the range it is given.\<close>

definition emit_range :: "ChunkID \<Rightarrow> 'a SegmentPosition list \<Rightarrow> PosList" where
  "emit_range cid ps = map (\<lambda>p. RowID cid (chunk_offset p)) ps"

text \<open>
  Vocabulary for the proofs about the narrowing. Under the active sort direction a
  position lies before the search value, at it, or after it; a search state is decomposed
  when its range is a run of positions before the value, a run at the value and a run
  after it.
\<close>

definition before :: "bool \<Rightarrow> ('a::linorder) \<Rightarrow> 'a SegmentPosition \<Rightarrow> bool" where
  "before asc v p = (if asc then pos_value p < v else v < pos_value p)"

definition after :: "bool \<Rightarrow> ('a::linorder) \<Rightarrow> 'a SegmentPosition \<Rightarrow> bool" where
  "after asc v p = (if asc then v < pos_value p else pos_value p < v)"

definition decomposed ::
  "('a::linorder) SortedSegmentSearch \<Rightarrow> 'a SegmentPosition list \<Rightarrow> 'a SegmentPosition list
   \<Rightarrow> 'a SegmentPosition list \<Rightarrow> 'a SegmentPosition list \<Rightarrow> 'a SegmentPosition list \<Rightarrow> bool" where
  "decomposed s pre A E B post =
     (positions s = pre @ A @ E @ B @ post \<and> begin_it s = length pre
      \<and> end_it s = length pre + length A + length E + length B
      \<and> list_all (before (is_ascending s) (search_value s)) A
      \<and> list_all (\<lambda>p. pos_value p = search_value s) E
      \<and> list_all (after (is_ascending s) (search_value s)) B)"

fun narrowed :: "bool \<Rightarrow> PredicateCondition \<Rightarrow> 'p list \<Rightarrow> 'p list \<Rightarrow> 'p list \<Rightarrow> 'p list" where
  "narrowed asc Equals A E B = E"
| "narrowed asc NotEquals A E B = A @ B"
| "narrowed asc GreaterThanEquals A E B = (if asc then E @ B else A @ E)"
| "narrowed asc GreaterThan A E B = (if asc then B else A)"
| "narrowed asc LessThanEquals A E B = (if asc then A @ E else E @ B)"
| "narrowed asc LessThan A E B = (if asc then A else B)"
| "narrowed asc _ A E B = []"

text \<open>
  A position list has no null row when it holds the row id of no null position of the
  scanned range; its rows are rows of non-null positions when each of them is the row id of
  a position of the range that is not null. The first reading needs chunk offsets that
  identify the positions of the range, the second does not.
\<close>

definition no_null_row :: "ChunkID \<Rightarrow> 'a SegmentPosition list \<Rightarrow> PosList \<Rightarrow> bool" where
  "no_null_row cid xs result =
     (\<forall>p\<in>set xs. is_null p \<longrightarrow> RowID cid (chunk_offset p) \<notin> set result)"

definition rows_of_non_null :: "ChunkID \<Rightarrow> 'a SegmentPosition list \<Rightarrow> PosList \<Rightarrow> bool" where
  "rows_of_non_null cid xs result =
     (\<forall>row\<in>set result. \<exists>p\<in>set xs. \<not> is_null p \<and> row = RowID cid (chunk_offset p))"

definition null_free_result :: "ChunkID \<Rightarrow> 'a SegmentPosition list \<Rightarrow> PosList \<Rightarrow> bool" where
  "null_free_result cid xs result =
     (rows_of_non_null cid xs result
      \<and> (distinct (map chunk_offset xs) \<longrightarrow> no_null_row cid xs result))"

text \<open>Concrete ranges and segments on which the theorems below are instantiated.\<close>

definition descending_nulls_last :: "int SegmentPosition list" where
  "descending_nulls_last =
     [\<lparr>pos_value = 5, is_null = False, chunk_offset = 0\<rparr>,
      \<lparr>pos_value = 4, is_null = False, chunk_offset = 1\<rparr>,
      \<lparr>pos_value = 3, is_null = False, chunk_offset = 2\<rparr>,
      \<lparr>pos_value = 2, is_null = False, chunk_offset = 3\<rparr>,
      \<lparr>pos_value = 1, is_null = False, chunk_offset = 4\<rparr>,
      \<lparr>pos_value = 0, is_null = True, chunk_offset = 5\<rparr>,
      \<lparr>pos_value = 0, is_null = True, chunk_offset = 6\<rparr>]"

definition ascending_with_duplicates :: "int SegmentPosition list" where
  "ascending_with_duplicates =
     [\<lparr>pos_value = 1, is_null = False, chunk_offset = 0\<rparr>,
      \<lparr>pos_value = 1, is_null = False, chunk_offset = 1\<rparr>,
      \<lparr>pos_value = 2, is_null = False, chunk_offset = 2\<rparr>,
      \<lparr>pos_value = 2, is_null = False, chunk_offset = 3\<rparr>,
      \<lparr>pos_value = 3, is_null = False, chunk_offset = 4\<rparr>]"

definition ones :: "nat \<Rightarrow> int SegmentPosition list" where
  "ones n = map (\<lambda>i. \<lparr>pos_value = 1, is_null = False, chunk_offset = of_nat i\<rparr>) [0..<n]"


definition null_position :: "int SegmentPosition" where
  "null_position = \<lparr>pos_value = 1, is_null = True, chunk_offset = 100\<rparr>"

definition sequential_only_segment :: "(unit, int) BaseSegment" where
  "sequential_only_segment =
     \<lparr>data_type = (), iterable = \<lparr>all_positions = ones 3, filtered_positions = None\<rparr>\<rparr>"

section \<open>The binary searches find the partition point\<close>

lemma lower_bound_loop_spec:
  assumes "first + len \<le> length xs"
    and "\<And>i j. first \<le> i \<Longrightarrow> i \<le> j \<Longrightarrow> j < first + len \<Longrightarrow> cmp (xs ! j) v \<Longrightarrow> cmp (xs ! i) v"
  shows "first \<le> lower_bound_loop xs first len v cmp
       \<and> lower_bound_loop xs first len v cmp \<le> first + len
       \<and> (\<forall>i. first \<le> i \<and> i < lower_bound_loop xs first len v cmp \<longrightarrow> cmp (xs ! i) v)
       \<and> (\<forall>i. lower_bound_loop xs first len v cmp \<le> i \<and> i < first + len \<longrightarrow> \<not> cmp (xs ! i) v)"
  using assms
proof (induction xs first len v cmp rule: lower_bound_loop.induct)
  case (1 xs first len v cmp)
  show ?case
  proof (cases "len = 0")
    case True
    then show ?thesis by (auto simp add: lower_bound_loop.simps)
  next
    case False
    define half where "half = len div 2"
    define middle where "middle = first + half"
    have hl: "half < len" using False by (simp add: half_def)
    show ?thesis
    proof (cases "cmp (xs ! middle) v")
      case True
      have eq: "lower_bound_loop xs first len v cmp = lower_bound_loop xs (middle + 1) (len - half - 1) v cmp"
        using False True by (subst lower_bound_loop.simps) (simp add: half_def middle_def Let_def)
      have ih: "middle + 1 \<le> lower_bound_loop xs (middle + 1) (len - half - 1) v cmp
       \<and> lower_bound_loop xs (middle + 1) (len - half - 1) v cmp \<le> middle + 1 + (len - half - 1)
       \<and> (\<forall>i. middle + 1 \<le> i \<and> i < lower_bound_loop xs (middle + 1) (len - half - 1) v cmp \<longrightarrow> cmp (xs ! i) v)
       \<and> (\<forall>i. lower_bound_loop xs (middle + 1) (len - half - 1) v cmp \<le> i \<and> i < middle + 1 + (len - half - 1) \<longrightarrow> \<not> cmp (xs ! i) v)"
      proof (rule "1.IH"(1)[OF False half_def middle_def True])
        show "middle + 1 + (len - half - 1) \<le> length xs" using "1.prems"(1) hl by (simp add: middle_def)
      next
        fix i j assume "middle + 1 \<le> i" "i \<le> j" "j < middle + 1 + (len - half - 1)" "cmp (xs ! j) v"
        then show "cmp (xs ! i) v" using "1.prems"(2)[of i j] hl by (simp add: middle_def)
      qed
      have low: "\<And>i. first \<le> i \<Longrightarrow> i \<le> middle \<Longrightarrow> cmp (xs ! i) v"
        using "1.prems"(2)[of _ middle] True hl by (simp add: middle_def)
      have e: "middle + 1 + (len - half - 1) = first + len" using hl by (simp add: middle_def)
      define r where "r = lower_bound_loop xs (middle + 1) (len - half - 1) v cmp"
      have r1: "middle + 1 \<le> r" and r2: "r \<le> first + len"
        and r3: "\<And>i. middle + 1 \<le> i \<Longrightarrow> i < r \<Longrightarrow> cmp (xs ! i) v"
        and r4: "\<And>i. r \<le> i \<Longrightarrow> i < first + len \<Longrightarrow> \<not> cmp (xs ! i) v"
        using ih e unfolding r_def by simp_all
      have "first \<le> r" using r1 by (simp add: middle_def)
      moreover have "\<forall>i. first \<le> i \<and> i < r \<longrightarrow> cmp (xs ! i) v"
      proof (intro allI impI)
        fix i assume a: "first \<le> i \<and> i < r"
        show "cmp (xs ! i) v"
        proof (cases "i \<le> middle")
          case True then show ?thesis using low a by simp
        next
          case False then show ?thesis using r3[of i] a by simp
        qed
      qed
      moreover have "\<forall>i. r \<le> i \<and> i < first + len \<longrightarrow> \<not> cmp (xs ! i) v"
        using r4 by simp
      ultimately show ?thesis unfolding eq r_def[symmetric] using r2 by simp
    next
      case nc: False
      have eq: "lower_bound_loop xs first len v cmp = lower_bound_loop xs first half v cmp"
        using False nc by (subst lower_bound_loop.simps) (simp add: half_def middle_def Let_def)
      have ih: "first \<le> lower_bound_loop xs first half v cmp
       \<and> lower_bound_loop xs first half v cmp \<le> first + half
       \<and> (\<forall>i. first \<le> i \<and> i < lower_bound_loop xs first half v cmp \<longrightarrow> cmp (xs ! i) v)
       \<and> (\<forall>i. lower_bound_loop xs first half v cmp \<le> i \<and> i < first + half \<longrightarrow> \<not> cmp (xs ! i) v)"
      proof (rule "1.IH"(2)[OF False half_def middle_def nc])
        show "first + half \<le> length xs" using "1.prems"(1) hl by simp
      next
        fix i j assume "first \<le> i" "i \<le> j" "j < first + half" "cmp (xs ! j) v"
        then show "cmp (xs ! i) v" using "1.prems"(2)[of i j] hl by simp
      qed
      have high: "\<And>i. middle \<le> i \<Longrightarrow> i < first + len \<Longrightarrow> \<not> cmp (xs ! i) v"
        using "1.prems"(2)[of middle] nc hl by (auto simp add: middle_def)
      define r where "r = lower_bound_loop xs first half v cmp"
      have r1: "first \<le> r" and r2: "r \<le> first + half"
        and r3: "\<And>i. first \<le> i \<Longrightarrow> i < r \<Longrightarrow> cmp (xs ! i) v"
        and r4: "\<And>i. r \<le> i \<Longrightarrow> i < first + half \<Longrightarrow> \<not> cmp (xs ! i) v"
        using ih unfolding r_def by simp_all
      have "r \<le> first + len" using r2 hl by simp
      moreover have "\<forall>i. r \<le> i \<and> i < first + len \<longrightarrow> \<not> cmp (xs ! i) v"
      proof (intro allI impI)
        fix i assume a: "r \<le> i \<and> i < first + len"
        show "\<not> cmp (xs ! i) v"
        proof (cases "i < middle")
          case True then show ?thesis using r4[of i] a by (simp add: middle_def)
        next
          case False then show ?thesis using high[of i] a by simp
        qed
      qed
      moreover have "\<forall>i. first \<le> i \<and> i < r \<longrightarrow> cmp (xs ! i) v"
        using r3 by simp
      ultimately show ?thesis unfolding eq r_def[symmetric] using r1 by simp
    qed
  qed
qed

lemma upper_bound_loop_spec:
  assumes "first + len \<le> length xs"
    and "\<And>i j. first \<le> i \<Longrightarrow> i \<le> j \<Longrightarrow> j < first + len \<Longrightarrow> cmp v (xs ! i) \<Longrightarrow> cmp v (xs ! j)"
  shows "first \<le> upper_bound_loop xs first len v cmp
       \<and> upper_bound_loop xs first len v cmp \<le> first + len
       \<and> (\<forall>i. first \<le> i \<and> i < upper_bound_loop xs first len v cmp \<longrightarrow> \<not> cmp v (xs ! i))
       \<and> (\<forall>i. upper_bound_loop xs first len v cmp \<le> i \<and> i < first + len \<longrightarrow> cmp v (xs ! i))"
  using assms
proof (induction xs first len v cmp rule: upper_bound_loop.induct)
  case (1 xs first len v cmp)
  show ?case
  proof (cases "len = 0")
    case True
    then show ?thesis by (auto simp add: upper_bound_loop.simps)
  next
    case False
    define half where "half = len div 2"
    define middle where "middle = first + half"
    have hl: "half < len" using False by (simp add: half_def)
    show ?thesis
    proof (cases "cmp v (xs ! middle)")
      case nc: False
      have eq: "upper_bound_loop xs first len v cmp = upper_bound_loop xs (middle + 1) (len - half - 1) v cmp"
        using False nc by (subst upper_bound_loop.simps) (simp add: half_def middle_def Let_def)
      have ih: "middle + 1 \<le> upper_bound_loop xs (middle + 1) (len - half - 1) v cmp
       \<and> upper_bound_loop xs (middle + 1) (len - half - 1) v cmp \<le> middle + 1 + (len - half - 1)
       \<and> (\<forall>i. middle + 1 \<le> i \<and> i < upper_bound_loop xs (middle + 1) (len - half - 1) v cmp \<longrightarrow> \<not> cmp v (xs ! i))
       \<and> (\<forall>i. upper_bound_loop xs (middle + 1) (len - half - 1) v cmp \<le> i \<and> i < middle + 1 + (len - half - 1) \<longrightarrow> cmp v (xs ! i))"
      proof (rule "1.IH"(2)[OF False half_def middle_def nc])
        show "middle + 1 + (len - half - 1) \<le> length xs" using "1.prems"(1) hl by (simp add: middle_def)
      next
        fix i j assume "middle + 1 \<le> i" "i \<le> j" "j < middle + 1 + (len - half - 1)" "cmp v (xs ! i)"
        then show "cmp v (xs ! j)" using "1.prems"(2)[of i j] hl by (simp add: middle_def)
      qed
      have low: "\<And>i. first \<le> i \<Longrightarrow> i \<le> middle \<Longrightarrow> \<not> cmp v (xs ! i)"
        using "1.prems"(2)[of _ middle] nc hl by (auto simp add: middle_def)
      have e: "middle + 1 + (len - half - 1) = first + len" using hl by (simp add: middle_def)
      define r where "r = upper_bound_loop xs (middle + 1) (len - half - 1) v cmp"
      have r1: "middle + 1 \<le> r" and r2: "r \<le> first + len"
        and r3: "\<And>i. middle + 1 \<le> i \<Longrightarrow> i < r \<Longrightarrow> \<not> cmp v (xs ! i)"
        and r4: "\<And>i. r \<le> i \<Longrightarrow> i < first + len \<Longrightarrow> cmp v (xs ! i)"
        using ih e unfolding r_def by simp_all
      have "first \<le> r" using r1 by (simp add: middle_def)
      moreover have "\<forall>i. first \<le> i \<and> i < r \<longrightarrow> \<not> cmp v (xs ! i)"
      proof (intro allI impI)
        fix i assume a: "first \<le> i \<and> i < r"
        show "\<not> cmp v (xs ! i)"
        proof (cases "i \<le> middle")
          case True then show ?thesis using low a by simp
        next
          case False then show ?thesis using r3[of i] a by simp
        qed
      qed
      moreover have "\<forall>i. r \<le> i \<and> i < first + len \<longrightarrow> cmp v (xs ! i)"
        using r4 by simp
      ultimately show ?thesis unfolding eq r_def[symmetric] using r2 by simp
    next
      case True
      have eq: "upper_bound_loop xs first len v cmp = upper_bound_loop xs first half v cmp"
        using False True by (subst upper_bound_loop.simps) (simp add: half_def middle_def Let_def)
      have ih: "first \<le> upper_bound_loop xs first half v cmp
       \<and> upper_bound_loop xs first half v cmp \<le> first + half
       \<and> (\<forall>i. first \<le> i \<and> i < upper_bound_loop xs first half v cmp \<longrightarrow> \<not> cmp v (xs ! i))
       \<and> (\<forall>i. upper_bound_loop xs first half v cmp \<le> i \<and> i < first + half \<longrightarrow> cmp v (xs ! i))"
      proof (rule "1.IH"(1)[OF False half_def middle_def True])
        show "first + half \<le> length xs" using "1.prems"(1) hl by simp
      next
        fix i j assume "first \<le> i" "i \<le> j" "j < first + half" "cmp v (xs ! i)"
        then show "cmp v (xs ! j)" using "1.prems"(2)[of i j] hl by simp
      qed
      have high: "\<And>i. middle \<le> i \<Longrightarrow> i < first + len \<Longrightarrow> cmp v (xs ! i)"
        using "1.prems"(2)[of middle] True hl by (auto simp add: middle_def)
      define r where "r = upper_bound_loop xs first half v cmp"
      have r1: "first \<le> r" and r2: "r \<le> first + half"
        and r3: "\<And>i. first \<le> i \<Longrightarrow> i < r \<Longrightarrow> \<not> cmp v (xs ! i)"
        and r4: "\<And>i. r \<le> i \<Longrightarrow> i < first + half \<Longrightarrow> cmp v (xs ! i)"
        using ih unfolding r_def by simp_all
      have "r \<le> first + len" using r2 hl by simp
      moreover have "\<forall>i. r \<le> i \<and> i < first + len \<longrightarrow> cmp v (xs ! i)"
      proof (intro allI impI)
        fix i assume a: "r \<le> i \<and> i < first + len"
        show "cmp v (xs ! i)"
        proof (cases "i < middle")
          case True then show ?thesis using r4[of i] a by (simp add: middle_def)
        next
          case False then show ?thesis using high[of i] a by simp
        qed
      qed
      moreover have "\<forall>i. first \<le> i \<and> i < r \<longrightarrow> \<not> cmp v (xs ! i)"
        using r3 by simp
      ultimately show ?thesis unfolding eq r_def[symmetric] using r1 by simp
    qed
  qed
qed

lemma lower_bound_loop_bounds:
  "first \<le> lower_bound_loop xs first len v cmp \<and> lower_bound_loop xs first len v cmp \<le> first + len"
proof (induction xs first len v cmp rule: lower_bound_loop.induct)
  case (1 xs first len v cmp)
  show ?case
  proof (cases "len = 0")
    case True
    then show ?thesis by (simp add: lower_bound_loop.simps)
  next
    case False
    have hl: "len div 2 < len" using False by simp
    show ?thesis
    proof (cases "cmp (xs ! (first + len div 2)) v")
      case True
      have eq: "lower_bound_loop xs first len v cmp = lower_bound_loop xs (first + len div 2 + 1) (len - len div 2 - 1) v cmp"
        using False True by (subst lower_bound_loop.simps) (simp add: Let_def)
      show ?thesis unfolding eq using "1.IH"(1)[OF False refl refl True] hl by simp
    next
      case nc: False
      have eq: "lower_bound_loop xs first len v cmp = lower_bound_loop xs first (len div 2) v cmp"
        using False nc by (subst lower_bound_loop.simps) (simp add: Let_def)
      show ?thesis unfolding eq using "1.IH"(2)[OF False refl refl nc] hl by simp
    qed
  qed
qed

lemma upper_bound_loop_bounds:
  "first \<le> upper_bound_loop xs first len v cmp \<and> upper_bound_loop xs first len v cmp \<le> first + len"
proof (induction xs first len v cmp rule: upper_bound_loop.induct)
  case (1 xs first len v cmp)
  show ?case
  proof (cases "len = 0")
    case True
    then show ?thesis by (simp add: upper_bound_loop.simps)
  next
    case False
    have hl: "len div 2 < len" using False by simp
    show ?thesis
    proof (cases "cmp v (xs ! (first + len div 2))")
      case nc: False
      have eq: "upper_bound_loop xs first len v cmp = upper_bound_loop xs (first + len div 2 + 1) (len - len div 2 - 1) v cmp"
        using False nc by (subst upper_bound_loop.simps) (simp add: Let_def)
      show ?thesis unfolding eq using "1.IH"(2)[OF False refl refl nc] hl by simp
    next
      case True
      have eq: "upper_bound_loop xs first len v cmp = upper_bound_loop xs first (len div 2) v cmp"
        using False True by (subst upper_bound_loop.simps) (simp add: Let_def)
      show ?thesis unfolding eq using "1.IH"(1)[OF False refl refl True] hl by simp
    qed
  qed
qed

lemma lower_bound_partition:
  assumes ys: "\<forall>y\<in>set ys. cmp y v" and zs: "\<forall>z\<in>set zs. \<not> cmp z v"
  shows "lower_bound (pre @ ys @ zs @ post) (length pre) (length pre + length ys + length zs) v cmp
         = length pre + length ys"
proof -
  let ?xs = "pre @ ys @ zs @ post"
  let ?f = "length pre" and ?n = "length ys + length zs"
  have in_ys: "\<And>i. ?f \<le> i \<Longrightarrow> i < ?f + length ys \<Longrightarrow> cmp (?xs ! i) v"
  proof -
    fix i assume a: "?f \<le> i" "i < ?f + length ys"
    then have "i - ?f < length ys" by linarith
    with a have "?xs ! i = ys ! (i - ?f)" by (simp add: nth_append)
    then show "cmp (?xs ! i) v" using ys \<open>i - ?f < length ys\<close> by simp
  qed
  have in_zs: "\<And>i. ?f + length ys \<le> i \<Longrightarrow> i < ?f + ?n \<Longrightarrow> \<not> cmp (?xs ! i) v"
  proof -
    fix i assume a: "?f + length ys \<le> i" "i < ?f + ?n"
    then have "?xs ! i = zs ! (i - ?f - length ys)" by (auto simp add: nth_append)
    moreover have "i - ?f - length ys < length zs" using a by linarith
    ultimately show "\<not> cmp (?xs ! i) v" using zs by simp
  qed
  define r where "r = lower_bound_loop ?xs ?f ?n v cmp"
  have spec: "?f \<le> r \<and> r \<le> ?f + ?n \<and> (\<forall>i. ?f \<le> i \<and> i < r \<longrightarrow> cmp (?xs ! i) v)
       \<and> (\<forall>i. r \<le> i \<and> i < ?f + ?n \<longrightarrow> \<not> cmp (?xs ! i) v)"
    unfolding r_def
  proof (rule lower_bound_loop_spec)
    show "?f + ?n \<le> length ?xs" by simp
  next
    fix i j assume a: "?f \<le> i" "i \<le> j" "j < ?f + ?n" "cmp (?xs ! j) v"
    have "j < ?f + length ys" using in_zs[of j] a by force
    then show "cmp (?xs ! i) v" using in_ys[of i] a by simp
  qed
  have "\<not> r < ?f + length ys"
  proof
    assume a: "r < ?f + length ys"
    have c: "r \<le> r \<and> r < ?f + ?n" using a by simp
    have d: "?f \<le> r" using spec by simp
    show False using spec c in_ys[OF d a] by blast
  qed
  moreover have "\<not> ?f + length ys < r"
  proof
    assume a: "?f + length ys < r"
    then have b: "?f + length ys < ?f + ?n" using spec by linarith
    have c: "?f \<le> ?f + length ys \<and> ?f + length ys < r" using a by simp
    show False using spec c in_zs[OF le_refl b] by blast
  qed
  ultimately have "r = ?f + length ys" by simp
  then show ?thesis by (simp add: lower_bound_def r_def add.assoc)
qed

lemma upper_bound_partition:
  assumes ys: "\<forall>y\<in>set ys. \<not> cmp v y" and zs: "\<forall>z\<in>set zs. cmp v z"
  shows "upper_bound (pre @ ys @ zs @ post) (length pre) (length pre + length ys + length zs) v cmp
         = length pre + length ys"
proof -
  let ?xs = "pre @ ys @ zs @ post"
  let ?f = "length pre" and ?n = "length ys + length zs"
  have in_ys: "\<And>i. ?f \<le> i \<Longrightarrow> i < ?f + length ys \<Longrightarrow> \<not> cmp v (?xs ! i)"
  proof -
    fix i assume a: "?f \<le> i" "i < ?f + length ys"
    then have "i - ?f < length ys" by linarith
    with a have "?xs ! i = ys ! (i - ?f)" by (simp add: nth_append)
    then show "\<not> cmp v (?xs ! i)" using ys \<open>i - ?f < length ys\<close> by simp
  qed
  have in_zs: "\<And>i. ?f + length ys \<le> i \<Longrightarrow> i < ?f + ?n \<Longrightarrow> cmp v (?xs ! i)"
  proof -
    fix i assume a: "?f + length ys \<le> i" "i < ?f + ?n"
    then have "?xs ! i = zs ! (i - ?f - length ys)" by (auto simp add: nth_append)
    moreover have "i - ?f - length ys < length zs" using a by linarith
    ultimately show "cmp v (?xs ! i)" using zs by simp
  qed
  define r where "r = upper_bound_loop ?xs ?f ?n v cmp"
  have spec: "?f \<le> r \<and> r \<le> ?f + ?n \<and> (\<forall>i. ?f \<le> i \<and> i < r \<longrightarrow> \<not> cmp v (?xs ! i))
       \<and> (\<forall>i. r \<le> i \<and> i < ?f + ?n \<longrightarrow> cmp v (?xs ! i))"
    unfolding r_def
  proof (rule upper_bound_loop_spec)
    show "?f + ?n \<le> length ?xs" by simp
  next
    fix i j assume a: "?f \<le> i" "i \<le> j" "j < ?f + ?n" "cmp v (?xs ! i)"
    have "\<not> i < ?f + length ys" using in_ys[of i] a by force
    then show "cmp v (?xs ! j)" using in_zs[of j] a by simp
  qed
  have "\<not> r < ?f + length ys"
  proof
    assume a: "r < ?f + length ys"
    have c: "r \<le> r \<and> r < ?f + ?n" using a by simp
    have d: "?f \<le> r" using spec by simp
    show False using spec c in_ys[OF d a] by blast
  qed
  moreover have "\<not> ?f + length ys < r"
  proof
    assume a: "?f + length ys < r"
    then have b: "?f + length ys < ?f + ?n" using spec by linarith
    have c: "?f \<le> ?f + length ys \<and> ?f + length ys < r" using a by simp
    show False using spec c in_zs[OF le_refl b] by blast
  qed
  ultimately have "r = ?f + length ys" by simp
  then show ?thesis by (simp add: upper_bound_def r_def add.assoc)
qed

section \<open>Narrowing a decomposed range\<close>

lemma iterator_range_middle:
  "xs = a @ b @ c \<Longrightarrow> i = length a \<Longrightarrow> j = length a + length b \<Longrightarrow> iterator_range xs i j = b"
  by (simp add: iterator_range_def)

lemma sorted_split:
  "sorted (map f xs) \<Longrightarrow>
   xs = filter (\<lambda>x. f x < v) xs @ filter (\<lambda>x. f x = v) xs @ filter (\<lambda>x. v < f x) xs"
proof (induction xs)
  case Nil
  then show ?case by simp
next
  case (Cons x xs)
  then have le: "\<forall>y\<in>set xs. f x \<le> f y" and ih: "xs = filter (\<lambda>x. f x < v) xs @ filter (\<lambda>x. f x = v) xs @ filter (\<lambda>x. v < f x) xs"
    by simp_all
  let ?L = "filter (\<lambda>x. f x < v)" and ?E = "filter (\<lambda>x. f x = v)" and ?G = "filter (\<lambda>x. v < f x)"
  have rest: "?L xs @ ?E xs @ ?G xs = xs" using ih by simp
  consider "f x < v" | "f x = v" | "v < f x" using less_linear by blast
  then have "?L (x # xs) @ ?E (x # xs) @ ?G (x # xs) = x # (?L xs @ ?E xs @ ?G xs)"
  proof cases
    case 1
    then show ?thesis by auto
  next
    case 2
    then have "?L xs = []" using le by (auto simp: filter_empty_conv)
    then show ?thesis using 2 by simp
  next
    case 3
    then have "?L xs = []" "?E xs = []"
      using le by (auto simp: filter_empty_conv)
    then show ?thesis using 3 by auto
  qed
  then show ?case using rest by simp
qed

lemma sorted_rev_split:
  assumes "sorted (rev (map f xs))"
  shows "xs = filter (\<lambda>x. v < f x) xs @ filter (\<lambda>x. f x = v) xs @ filter (\<lambda>x. f x < v) xs"
proof -
  have "sorted (map f (rev xs))" using assms by (simp add: rev_map)
  from sorted_split[OF this, of v]
  have "rev (rev xs) = rev (filter (\<lambda>x. f x < v) (rev xs) @ filter (\<lambda>x. f x = v) (rev xs) @ filter (\<lambda>x. v < f x) (rev xs))"
    by simp
  then show ?thesis by (simp add: rev_filter)
qed

lemma first_bound_partition:
  assumes "positions s = pre @ ys @ zs @ post"
    and "begin_it s = length pre" and "end_it s = length pre + length ys + length zs"
    and "\<forall>p\<in>set ys. before (is_ascending s) (search_value s) p"
    and "\<forall>p\<in>set zs. \<not> before (is_ascending s) (search_value s) p"
  shows "get_first_bound s = length pre + length ys"
proof (cases "is_ascending s")
  case True
  have "lower_bound (pre @ ys @ zs @ post) (length pre) (length pre + length ys + length zs)
          (search_value s) (\<lambda>segment_position v. pos_value segment_position < v) = length pre + length ys"
    by (rule lower_bound_partition) (use assms(4,5) True in \<open>simp_all add: before_def\<close>)
  then show ?thesis using True assms(1-3) by (simp add: get_first_bound_def)
next
  case False
  have "lower_bound (pre @ ys @ zs @ post) (length pre) (length pre + length ys + length zs)
          (search_value s) (\<lambda>segment_position v. pos_value segment_position > v) = length pre + length ys"
    by (rule lower_bound_partition) (use assms(4,5) False in \<open>simp_all add: before_def\<close>)
  then show ?thesis using False assms(1-3) by (simp add: get_first_bound_def)
qed

lemma last_bound_partition:
  assumes "positions s = pre @ ys @ zs @ post"
    and "begin_it s = length pre" and "end_it s = length pre + length ys + length zs"
    and "\<forall>p\<in>set ys. \<not> after (is_ascending s) (search_value s) p"
    and "\<forall>p\<in>set zs. after (is_ascending s) (search_value s) p"
  shows "get_last_bound s = length pre + length ys"
proof (cases "is_ascending s")
  case True
  have "upper_bound (pre @ ys @ zs @ post) (length pre) (length pre + length ys + length zs)
          (search_value s) (\<lambda>v segment_position. pos_value segment_position > v) = length pre + length ys"
    by (rule upper_bound_partition) (use assms(4,5) True in \<open>simp_all add: after_def\<close>)
  then show ?thesis using True assms(1-3) by (simp add: get_last_bound_def)
next
  case False
  have "upper_bound (pre @ ys @ zs @ post) (length pre) (length pre + length ys + length zs)
          (search_value s) (\<lambda>v segment_position. pos_value segment_position < v) = length pre + length ys"
    by (rule upper_bound_partition) (use assms(4,5) False in \<open>simp_all add: after_def\<close>)
  then show ?thesis using False assms(1-3) by (simp add: get_last_bound_def)
qed

lemma before_not_after: "before asc v p \<Longrightarrow> \<not> after asc v p"
  by (auto simp: before_def after_def)

lemma after_not_before: "after asc v p \<Longrightarrow> \<not> before asc v p"
  by (auto simp: before_def after_def)

lemma equal_not_before_after: "pos_value p = v \<Longrightarrow> \<not> before asc v p \<and> \<not> after asc v p"
  by (auto simp: before_def after_def)

lemma decomposed_first_bound:
  assumes "decomposed s pre A E B post"
  shows "get_first_bound s = length pre + length A"
proof (rule first_bound_partition[where zs = "E @ B" and post = post])
  show "positions s = pre @ A @ (E @ B) @ post" using assms by (simp add: decomposed_def)
  show "begin_it s = length pre" using assms by (simp add: decomposed_def)
  show "end_it s = length pre + length A + length (E @ B)" using assms by (simp add: decomposed_def)
  show "\<forall>p\<in>set A. before (is_ascending s) (search_value s) p"
    using assms by (simp add: decomposed_def list_all_iff)
  show "\<forall>p\<in>set (E @ B). \<not> before (is_ascending s) (search_value s) p"
  proof
    fix p assume "p \<in> set (E @ B)"
    then consider "p \<in> set E" | "p \<in> set B" by auto
    then show "\<not> before (is_ascending s) (search_value s) p"
    proof cases
      case 1
      then have "pos_value p = search_value s" using assms by (simp add: decomposed_def list_all_iff)
      then show ?thesis by (simp add: before_def)
    next
      case 2
      then have "after (is_ascending s) (search_value s) p"
        using assms by (simp add: decomposed_def list_all_iff)
      then show ?thesis by (rule after_not_before)
    qed
  qed
qed

lemma decomposed_last_bound:
  assumes "decomposed s pre A E B post" and "b = begin_it s \<or> b = length pre + length A"
  shows "get_last_bound (s\<lparr>begin_it := b\<rparr>) = length pre + length A + length E"
proof -
  have nafter: "\<forall>p\<in>set (A @ E). \<not> after (is_ascending s) (search_value s) p"
  proof
    fix p assume "p \<in> set (A @ E)"
    then consider "p \<in> set A" | "p \<in> set E" by auto
    then show "\<not> after (is_ascending s) (search_value s) p"
    proof cases
      case 1
      then have "before (is_ascending s) (search_value s) p"
        using assms(1) by (simp add: decomposed_def list_all_iff)
      then show ?thesis by (rule before_not_after)
    next
      case 2
      then have "pos_value p = search_value s" using assms(1) by (simp add: decomposed_def list_all_iff)
      then show ?thesis by (simp add: after_def)
    qed
  qed
  have aft: "\<forall>p\<in>set B. after (is_ascending s) (search_value s) p"
    using assms(1) by (simp add: decomposed_def list_all_iff)
  from assms(2) show ?thesis
  proof
    assume b: "b = begin_it s"
    have "get_last_bound (s\<lparr>begin_it := b\<rparr>) = length pre + length (A @ E)"
    proof (rule last_bound_partition[where zs = B and post = post])
      show "positions (s\<lparr>begin_it := b\<rparr>) = pre @ (A @ E) @ B @ post"
        using assms(1) by (simp add: decomposed_def)
      show "begin_it (s\<lparr>begin_it := b\<rparr>) = length pre" using assms(1) b by (simp add: decomposed_def)
      show "end_it (s\<lparr>begin_it := b\<rparr>) = length pre + length (A @ E) + length B"
        using assms(1) by (simp add: decomposed_def)
      show "\<forall>p\<in>set (A @ E). \<not> after (is_ascending (s\<lparr>begin_it := b\<rparr>)) (search_value (s\<lparr>begin_it := b\<rparr>)) p"
        using nafter by simp
      show "\<forall>p\<in>set B. after (is_ascending (s\<lparr>begin_it := b\<rparr>)) (search_value (s\<lparr>begin_it := b\<rparr>)) p"
        using aft by simp
    qed
    then show ?thesis by simp
  next
    assume b: "b = length pre + length A"
    have "get_last_bound (s\<lparr>begin_it := b\<rparr>) = length (pre @ A) + length E"
    proof (rule last_bound_partition[where zs = B and post = post])
      show "positions (s\<lparr>begin_it := b\<rparr>) = (pre @ A) @ E @ B @ post"
        using assms(1) by (simp add: decomposed_def)
      show "begin_it (s\<lparr>begin_it := b\<rparr>) = length (pre @ A)" using b by simp
      show "end_it (s\<lparr>begin_it := b\<rparr>) = length (pre @ A) + length E + length B"
        using assms(1) by (simp add: decomposed_def)
      show "\<forall>p\<in>set E. \<not> after (is_ascending (s\<lparr>begin_it := b\<rparr>)) (search_value (s\<lparr>begin_it := b\<rparr>)) p"
        using nafter by simp
      show "\<forall>p\<in>set B. after (is_ascending (s\<lparr>begin_it := b\<rparr>)) (search_value (s\<lparr>begin_it := b\<rparr>)) p"
        using aft by simp
    qed
    then show ?thesis by simp
  qed
qed

lemma decomposed_last_bound_same:
  assumes "decomposed s pre A E B post"
  shows "get_last_bound s = length pre + length A + length E"
  using decomposed_last_bound[OF assms, of "begin_it s"] by simp

lemma range_A: "decomposed s pre A E B post \<Longrightarrow>
  iterator_range (positions s) (length pre) (length pre + length A) = A"
  by (rule iterator_range_middle[where a = pre and c = "E @ B @ post"]) (simp_all add: decomposed_def)

lemma range_AE: "decomposed s pre A E B post \<Longrightarrow>
  iterator_range (positions s) (length pre) (length pre + length A + length E) = A @ E"
  by (rule iterator_range_middle[where a = pre and c = "B @ post"]) (simp_all add: decomposed_def)

lemma range_AEB: "decomposed s pre A E B post \<Longrightarrow>
  iterator_range (positions s) (length pre) (length pre + length A + length E + length B) = A @ E @ B"
  by (rule iterator_range_middle[where a = pre and c = "post"]) (simp_all add: decomposed_def)

lemma range_E: "decomposed s pre A E B post \<Longrightarrow>
  iterator_range (positions s) (length pre + length A) (length pre + length A + length E) = E"
  by (rule iterator_range_middle[where a = "pre @ A" and c = "B @ post"]) (simp_all add: decomposed_def)

lemma range_EB: "decomposed s pre A E B post \<Longrightarrow>
  iterator_range (positions s) (length pre + length A) (length pre + length A + length E + length B) = E @ B"
  by (rule iterator_range_middle[where a = "pre @ A" and c = "post"]) (simp_all add: decomposed_def)

lemma range_B: "decomposed s pre A E B post \<Longrightarrow>
  iterator_range (positions s) (length pre + length A + length E) (length pre + length A + length E + length B) = B"
  by (rule iterator_range_middle[where a = "pre @ A @ E" and c = "post"]) (simp_all add: decomposed_def)

lemmas decomposed_ranges = range_A range_AE range_AEB range_E range_EB range_B

lemma set_begin_and_end_decomposed:
  assumes d: "decomposed s pre A E B post"
    and c: "predicate_condition s \<in> {Equals, LessThan, LessThanEquals, GreaterThan, GreaterThanEquals}"
  shows "\<exists>s'. set_begin_and_end s = Inr s' \<and>
           iterator_range (positions s') (begin_it s') (end_it s')
             = narrowed (is_ascending s) (predicate_condition s) A E B"
proof -
  have fb: "get_first_bound s = length pre + length A" by (rule decomposed_first_bound[OF d])
  have lb: "get_last_bound s = length pre + length A + length E" by (rule decomposed_last_bound_same[OF d])
  have lb': "get_last_bound (s\<lparr>begin_it := length pre + length A\<rparr>) = length pre + length A + length E"
    by (rule decomposed_last_bound[OF d]) simp
  have b: "begin_it s = length pre" and e: "end_it s = length pre + length A + length E + length B"
    using d by (simp_all add: decomposed_def)
  note r = decomposed_ranges[OF d]
  from c consider "predicate_condition s = Equals" | "predicate_condition s = LessThan"
    | "predicate_condition s = LessThanEquals" | "predicate_condition s = GreaterThan"
    | "predicate_condition s = GreaterThanEquals" by auto
  then show ?thesis
  proof cases
    case 1
    then show ?thesis by (simp add: set_begin_and_end_def Let_def fb lb' r)
  next
    case 2
    then show ?thesis by (simp add: set_begin_and_end_def fb lb b e r)
  next
    case 3
    then show ?thesis by (simp add: set_begin_and_end_def fb lb b e r)
  next
    case 4
    then show ?thesis by (simp add: set_begin_and_end_def fb lb b e r)
  next
    case 5
    then show ?thesis by (simp add: set_begin_and_end_def fb lb b e r)
  qed
qed

lemma handle_not_equals_decomposed:
  assumes d: "decomposed s pre A E B post"
  shows "handle_not_equals f s = f (A @ B)"
proof -
  have fb: "get_first_bound s = length pre + length A" by (rule decomposed_first_bound[OF d])
  have lb: "get_last_bound s = length pre + length A + length E" by (rule decomposed_last_bound_same[OF d])
  have b: "begin_it s = length pre" and e: "end_it s = length pre + length A + length E + length B"
    using d by (simp_all add: decomposed_def)
  note r = decomposed_ranges[OF d]
  show ?thesis
  proof (cases "E = [] \<and> B = []")
    case True
    then show ?thesis using r(1) by (simp add: handle_not_equals_def Let_def fb b e)
  next
    case nEB: False
    show ?thesis
    proof (cases "B = []")
      case True
      then show ?thesis using nEB r(1) by (simp add: handle_not_equals_def Let_def fb lb b e)
    next
      case nB: False
      show ?thesis
      proof (cases "A = []")
        case True
        then show ?thesis using nB nEB r(6) by (simp add: handle_not_equals_def Let_def fb lb b e)
      next
        case False
        then show ?thesis using nB nEB r(1) r(6) by (simp add: handle_not_equals_def Let_def fb lb b e)
      qed
    qed
  qed
qed

lemma filter_narrowed:
  fixes v :: "'a::linorder"
  assumes n: "\<forall>p\<in>set pre \<union> set post. is_null p"
    and nn: "\<forall>p\<in>set A \<union> set E \<union> set B. \<not> is_null p"
    and a: "\<forall>p\<in>set A. before asc v p" and e: "\<forall>p\<in>set E. pos_value p = v"
    and b: "\<forall>p\<in>set B. after asc v p"
    and c: "is_comparison cond"
  shows "filter (\<lambda>p. \<not> is_null p \<and> comparator cond (pos_value p) v) (pre @ A @ E @ B @ post)
         = narrowed asc cond A E B"
proof -
  let ?Q = "\<lambda>p. \<not> is_null p \<and> comparator cond (pos_value p) v"
  have pre: "filter ?Q pre = []" "filter ?Q post = []"
    using n by (auto simp: filter_empty_conv)
  have E: "filter ?Q E = (if cond \<in> {Equals, LessThanEquals, GreaterThanEquals} then E else [])"
    using e nn c by (cases cond) (auto simp: filter_id_conv filter_empty_conv is_comparison_def)
  have A: "filter ?Q A = (if cond = NotEquals \<or> (asc \<and> cond \<in> {LessThan, LessThanEquals})
                             \<or> (\<not> asc \<and> cond \<in> {GreaterThan, GreaterThanEquals}) then A else [])"
    using a nn c by (cases cond; cases asc)
      (auto simp: filter_id_conv filter_empty_conv is_comparison_def before_def)
  have B: "filter ?Q B = (if cond = NotEquals \<or> (asc \<and> cond \<in> {GreaterThan, GreaterThanEquals})
                             \<or> (\<not> asc \<and> cond \<in> {LessThan, LessThanEquals}) then B else [])"
    using b nn c by (cases cond; cases asc)
      (auto simp: filter_id_conv filter_empty_conv is_comparison_def after_def)
  have "filter ?Q (pre @ A @ E @ B @ post) = filter ?Q A @ filter ?Q E @ filter ?Q B"
    by (simp add: pre)
  also have "\<dots> = narrowed asc cond A E B"
    unfolding A E B using c by (cases cond) (simp_all add: is_comparison_def)
  finally show ?thesis .
qed

section \<open>Narrowing a sorted range\<close>

lemma exclude_nulls_first:
  assumes "nulls_placed order_by xs" and "order_by = Ascending \<or> order_by = Descending"
  shows "exclude_nulls (make_SortedSegmentSearch xs order_by cond v)
         = (make_SortedSegmentSearch xs order_by cond v)\<lparr>begin_it := length (filter is_null xs)\<rparr>"
proof -
  let ?nulls = "filter is_null xs" and ?vals = "filter (\<lambda>p. \<not> is_null p) xs"
  have xs: "xs = ?nulls @ ?vals" using assms by (simp add: nulls_placed_def)
  have len: "length xs = length ?nulls + length ?vals"
    by (subst xs) (simp only: length_append)
  have "lower_bound ([] @ ?nulls @ ?vals @ []) (length ([] :: 'a SegmentPosition list))
          (length ([] :: 'a SegmentPosition list) + length ?nulls + length ?vals) False
          (\<lambda>segment_position _. is_null segment_position)
        = length ([] :: 'a SegmentPosition list) + length ?nulls"
    by (rule lower_bound_partition) simp_all
  then have "lower_bound (?nulls @ ?vals) 0 (length ?nulls + length ?vals) False
          (\<lambda>segment_position _. is_null segment_position) = length ?nulls"
    by simp
  then have "lower_bound xs 0 (length xs) False (\<lambda>segment_position _. is_null segment_position)
        = length ?nulls"
    using xs len by simp
  then show ?thesis using assms(2)
    by (auto simp add: exclude_nulls_def make_SortedSegmentSearch_def)
qed

lemma exclude_nulls_last:
  assumes "nulls_placed order_by xs" and "\<not> (order_by = Ascending \<or> order_by = Descending)"
  shows "exclude_nulls (make_SortedSegmentSearch xs order_by cond v)
         = (make_SortedSegmentSearch xs order_by cond v)\<lparr>end_it := length (filter (\<lambda>p. \<not> is_null p) xs)\<rparr>"
proof -
  let ?nulls = "filter is_null xs" and ?vals = "filter (\<lambda>p. \<not> is_null p) xs"
  have xs: "xs = ?vals @ ?nulls" using assms by (simp add: nulls_placed_def)
  have len: "length xs = length ?vals + length ?nulls"
    by (subst xs) (simp only: length_append)
  have "lower_bound ([] @ ?vals @ ?nulls @ []) (length ([] :: 'a SegmentPosition list))
          (length ([] :: 'a SegmentPosition list) + length ?vals + length ?nulls) True
          (\<lambda>segment_position _. \<not> is_null segment_position)
        = length ([] :: 'a SegmentPosition list) + length ?vals"
    by (rule lower_bound_partition) simp_all
  then have "lower_bound (?vals @ ?nulls) 0 (length ?vals + length ?nulls) True
          (\<lambda>segment_position _. \<not> is_null segment_position) = length ?vals"
    by simp
  then have "lower_bound xs 0 (length xs) True (\<lambda>segment_position _. \<not> is_null segment_position)
        = length ?vals"
    using xs len by simp
  then show ?thesis using assms(2)
    by (auto simp add: exclude_nulls_def make_SortedSegmentSearch_def)
qed

lemma exclude_nulls_fields [simp]:
  "positions (exclude_nulls s) = positions s"
  "predicate_condition (exclude_nulls s) = predicate_condition s"
  "search_value (exclude_nulls s) = search_value s"
  "is_ascending (exclude_nulls s) = is_ascending s"
  by (simp_all add: exclude_nulls_def)

lemma make_fields [simp]:
  "positions (make_SortedSegmentSearch xs order_by cond v) = xs"
  "predicate_condition (make_SortedSegmentSearch xs order_by cond v) = cond"
  "search_value (make_SortedSegmentSearch xs order_by cond v) = v"
  "is_ascending (make_SortedSegmentSearch xs order_by cond v)
     = (order_by = Ascending \<or> order_by = AscendingNullsLast)"
  "begin_it (make_SortedSegmentSearch xs order_by cond v) = 0"
  "end_it (make_SortedSegmentSearch xs order_by cond v) = length xs"
  by (simp_all add: make_SortedSegmentSearch_def)

lemma values_ordered_split:
  fixes v :: "'a::linorder"
  assumes "values_ordered order_by xs"
  defines "asc \<equiv> order_by = Ascending \<or> order_by = AscendingNullsLast"
  defines "vals \<equiv> filter (\<lambda>p. \<not> is_null p) xs"
  shows "vals = filter (before asc v) vals @ filter (\<lambda>p. pos_value p = v) vals @ filter (after asc v) vals"
proof (cases asc)
  case True
  then have "sorted (map pos_value vals)"
    using assms(1) by (simp add: values_ordered_def asc_def vals_def)
  from sorted_split[OF this, of v] show ?thesis using True by (simp add: before_def[abs_def] after_def[abs_def])
next
  case False
  then have "sorted (rev (map pos_value vals))"
    using assms(1) by (simp add: values_ordered_def asc_def vals_def)
  from sorted_rev_split[OF this, of v] show ?thesis using False by (simp add: before_def[abs_def] after_def[abs_def])
qed

lemma sorted_per_decomposed:
  fixes v :: "'a::linorder"
  assumes sp: "sorted_per order_by xs"
  shows "\<exists>pre A E B post.
           decomposed (exclude_nulls (make_SortedSegmentSearch xs order_by cond v)) pre A E B post
         \<and> xs = pre @ A @ E @ B @ post
         \<and> pre @ post = filter is_null xs
         \<and> A @ E @ B = filter (\<lambda>p. \<not> is_null p) xs"
proof -
  define asc where "asc = (order_by = Ascending \<or> order_by = AscendingNullsLast)"
  define nulls where "nulls = filter is_null xs"
  define vals where "vals = filter (\<lambda>p. \<not> is_null p) xs"
  define A where "A = filter (before asc v) vals"
  define E where "E = filter (\<lambda>p. pos_value p = v) vals"
  define B where "B = filter (after asc v) vals"
  have np: "nulls_placed order_by xs" and vo: "values_ordered order_by xs"
    using sp by (simp_all add: sorted_per_def)
  have vals: "vals = A @ E @ B"
    unfolding A_def E_def B_def vals_def asc_def by (rule values_ordered_split[OF vo])
  have lens: "length vals = length A + length E + length B"
    by (subst vals) simp
  have all: "list_all (before asc v) A" "list_all (\<lambda>p. pos_value p = v) E" "list_all (after asc v) B"
    by (simp_all add: A_def E_def B_def list_all_iff)
  show ?thesis
  proof (cases "order_by = Ascending \<or> order_by = Descending")
    case True
    have xs: "xs = nulls @ vals" using np True by (simp add: nulls_placed_def nulls_def vals_def)
    have xs': "xs = nulls @ A @ E @ B @ []" using xs vals by simp
    have len: "length xs = length nulls + length A + length E + length B"
      by (subst xs') simp
    have st: "exclude_nulls (make_SortedSegmentSearch xs order_by cond v)
              = (make_SortedSegmentSearch xs order_by cond v)\<lparr>begin_it := length nulls\<rparr>"
      using exclude_nulls_first[OF np True] by (simp add: nulls_def)
    have "decomposed (exclude_nulls (make_SortedSegmentSearch xs order_by cond v)) nulls A E B []"
      unfolding st decomposed_def using all xs' len by (simp add: asc_def)
    moreover have "nulls @ [] = filter is_null xs" by (simp add: nulls_def)
    moreover have "A @ E @ B = filter (\<lambda>p. \<not> is_null p) xs" using vals by (simp add: vals_def)
    ultimately show ?thesis using xs' by blast
  next
    case False
    have xs: "xs = vals @ nulls" using np False by (simp add: nulls_placed_def nulls_def vals_def)
    have xs': "xs = [] @ A @ E @ B @ nulls" using xs vals by simp
    have st: "exclude_nulls (make_SortedSegmentSearch xs order_by cond v)
              = (make_SortedSegmentSearch xs order_by cond v)\<lparr>end_it := length vals\<rparr>"
      using exclude_nulls_last[OF np False] by (simp add: vals_def)
    have "decomposed (exclude_nulls (make_SortedSegmentSearch xs order_by cond v)) [] A E B nulls"
      unfolding st decomposed_def using all xs' lens by (simp add: asc_def)
    moreover have "[] @ nulls = filter is_null xs" by (simp add: nulls_def)
    moreover have "A @ E @ B = filter (\<lambda>p. \<not> is_null p) xs" using vals by (simp add: vals_def)
    ultimately show ?thesis using xs' by blast
  qed
qed

lemma scan_sorted_segment_filter:
  fixes v :: "'a::linorder"
  assumes sp: "sorted_per order_by xs" and c: "is_comparison cond"
  shows "scan_sorted_segment f (make_SortedSegmentSearch xs order_by cond v)
         = Inr (f (filter (\<lambda>p. \<not> is_null p \<and> comparator cond (pos_value p) v) xs))"
proof -
  define s where "s = exclude_nulls (make_SortedSegmentSearch xs order_by cond v)"
  define asc where "asc = (order_by = Ascending \<or> order_by = AscendingNullsLast)"
  obtain pre A E B post where d: "decomposed s pre A E B post"
    and xs: "xs = pre @ A @ E @ B @ post"
    and nulls: "pre @ post = filter is_null xs"
    and vals: "A @ E @ B = filter (\<lambda>p. \<not> is_null p) xs"
    using sorted_per_decomposed[OF sp, of cond v] unfolding s_def by blast
  have pc: "predicate_condition s = cond" and ia: "is_ascending s = asc" and sv: "search_value s = v"
    by (simp_all add: s_def asc_def)
  have n: "\<forall>p\<in>set pre \<union> set post. is_null p"
  proof -
    have "set pre \<union> set post = set (filter is_null xs)" using nulls by (metis set_append)
    then show ?thesis by simp
  qed
  have nn: "\<forall>p\<in>set A \<union> set E \<union> set B. \<not> is_null p"
  proof -
    have "set A \<union> set E \<union> set B = set (filter (\<lambda>p. \<not> is_null p) xs)"
      using vals by (metis set_append Un_assoc)
    then show ?thesis by simp
  qed
  have a: "\<forall>p\<in>set A. before asc v p" and e: "\<forall>p\<in>set E. pos_value p = v"
    and b: "\<forall>p\<in>set B. after asc v p"
    using d by (simp_all add: decomposed_def list_all_iff ia sv)
  have flt: "filter (\<lambda>p. \<not> is_null p \<and> comparator cond (pos_value p) v) xs = narrowed asc cond A E B"
    by (subst xs) (rule filter_narrowed[OF n nn a e b c])
  show ?thesis
  proof (cases "cond = NotEquals")
    case True
    have "scan_sorted_segment f (make_SortedSegmentSearch xs order_by cond v)
          = Inr (handle_not_equals f s)"
      using True pc by (simp add: scan_sorted_segment_def s_def Let_def)
    also have "\<dots> = Inr (f (A @ B))" by (simp add: handle_not_equals_decomposed[OF d])
    finally show ?thesis using True flt by simp
  next
    case False
    then have "predicate_condition s \<in> {Equals, LessThan, LessThanEquals, GreaterThan, GreaterThanEquals}"
      using c pc by (auto simp: is_comparison_def)
    from set_begin_and_end_decomposed[OF d this]
    obtain s' where s': "set_begin_and_end s = Inr s'"
      and r: "iterator_range (positions s') (begin_it s') (end_it s') = narrowed asc cond A E B"
      using ia pc by auto
    have "scan_sorted_segment f (make_SortedSegmentSearch xs order_by cond v)
          = Inr (f (iterator_range (positions s') (begin_it s') (end_it s')))"
      using False pc s' by (simp add: scan_sorted_segment_def s_def[symmetric] Let_def)
    then show ?thesis using r flt by simp
  qed
qed

lemma exclude_nulls_range:
  assumes np: "nulls_placed order_by xs"
  shows "iterator_range xs (begin_it (exclude_nulls (make_SortedSegmentSearch xs order_by cond v)))
           (end_it (exclude_nulls (make_SortedSegmentSearch xs order_by cond v)))
         = filter (\<lambda>p. \<not> is_null p) xs"
proof (cases "order_by = Ascending \<or> order_by = Descending")
  case True
  have xs: "xs = filter is_null xs @ filter (\<lambda>p. \<not> is_null p) xs @ []"
    using np True by (simp add: nulls_placed_def)
  have len: "length xs = length (filter is_null xs) + length (filter (\<lambda>p. \<not> is_null p) xs)"
    by (subst xs) (simp only: length_append list.size add_0_right)
  show ?thesis
    unfolding exclude_nulls_first[OF np True]
    by (rule iterator_range_middle[OF xs]) (simp_all add: len)
next
  case False
  have xs: "xs = [] @ filter (\<lambda>p. \<not> is_null p) xs @ filter is_null xs"
    using np False by (simp add: nulls_placed_def)
  show ?thesis
    unfolding exclude_nulls_last[OF np False]
    by (rule iterator_range_middle[OF xs]) simp_all
qed

lemma sorted_wrt_outer:
  "sorted_wrt P (map g (pre @ A @ E @ B @ post)) \<Longrightarrow> sorted_wrt P (map g (A @ B))"
  by (auto simp add: sorted_wrt_append)


section \<open>The scan loops as filters\<close>

lemma unary_scan_filter:
  "unary_scan func xs cid out
   = out @ emit_range cid (filter (\<lambda>p. \<not> is_null p \<and> func (pos_value p)) xs)"
  by (induction xs arbitrary: out) (simp_all add: emit_range_def)

lemma scan_remainder_filter:
  "scan_remainder nullable func xs rv cid out
   = out @ emit_range cid (filter (matches nullable func rv) xs)"
  by (induction xs arbitrary: out) (simp_all add: emit_range_def)

lemma binary_scan_filter:
  "length ys = length xs \<Longrightarrow>
   binary_scan func xs ys cid out
   = Some (out @ emit_range cid (map fst (filter (\<lambda>(l, r). \<not> is_null l \<and> \<not> is_null r
              \<and> func (pos_value l) (pos_value r)) (zip xs ys))))"
  by (induction func xs ys cid out rule: binary_scan.induct) (simp_all add: emit_range_def)


section \<open>The block loop\<close>

lemma bit_flag:
  assumes "i < 31"
  shows "bit (scast (push_bit i (of_bool c :: 32 word)) :: 64 word) n \<longleftrightarrow> c \<and> n = i"
  using assms by (auto simp add: bit_signed_iff bit_push_bit_iff bit_of_bool_iff min_def)

lemma bit_collect_match_positions:
  "i + length buffer \<le> 31 \<Longrightarrow>
   bit (collect_match_positions buffer i mp) n
   \<longleftrightarrow> bit mp n \<or> (i \<le> n \<and> n < i + length buffer \<and> buffer ! (n - i) \<noteq> 0)"
proof (induction buffer arbitrary: i mp)
  case Nil
  then show ?case by auto
next
  case (Cons entry buffer)
  have i: "i < 31" and ih: "Suc i + length buffer \<le> 31" using Cons.prems by simp_all
  have "bit (collect_match_positions (entry # buffer) i mp) n
        \<longleftrightarrow> bit (mp OR scast (push_bit i (of_bool (entry \<noteq> 0) :: 32 word))) n
            \<or> (Suc i \<le> n \<and> n < Suc i + length buffer \<and> buffer ! (n - Suc i) \<noteq> 0)"
    using Cons.IH[OF ih] by simp
  also have "\<dots> \<longleftrightarrow> bit mp n \<or> (entry \<noteq> 0 \<and> n = i)
            \<or> (Suc i \<le> n \<and> n < Suc i + length buffer \<and> buffer ! (n - Suc i) \<noteq> 0)"
    by (simp add: bit_or_iff bit_flag[OF i])
  also have "\<dots> \<longleftrightarrow> bit mp n \<or> (i \<le> n \<and> n < i + length (entry # buffer) \<and> (entry # buffer) ! (n - i) \<noteq> 0)"
  proof (cases "n = i")
    case True
    then show ?thesis by simp
  next
    case False
    show ?thesis
    proof (cases "n < i")
      case True
      then show ?thesis by simp
    next
      case ge: False
      then have "n - i = Suc (n - Suc i)" using False by simp
      then have "(entry # buffer) ! (n - i) = buffer ! (n - Suc i)" by simp
      then show ?thesis using False ge by auto
    qed
  qed
  finally show ?case .
qed

lemma and_one_neq_zero_iff: "(w AND 1 \<noteq> 0) \<longleftrightarrow> bit w 0" for w :: "64 word"
  by (simp add: and_one_eq bit_0 mod_2_eq_odd)

lemma expand_matches_filter:
  assumes "\<And>n. bit mp n \<longleftrightarrow> (idx + n < length buffer \<and> buffer ! (idx + n) \<noteq> 0)"
  shows "expand_matches mp idx buffer cid out
         = out @ map (\<lambda>entry. RowID cid (entry - 1)) (filter (\<lambda>entry. entry \<noteq> 0) (drop idx buffer))"
  using assms
proof (induction mp idx buffer cid out rule: expand_matches.induct)
  case (1 mp idx buffer cid out)
  note bits = "1.prems"
  show ?case
  proof (cases "mp = 0")
    case True
    have "\<forall>entry\<in>set (drop idx buffer). entry = 0"
    proof
      fix entry assume "entry \<in> set (drop idx buffer)"
      then obtain j where j: "j < length (drop idx buffer)" and e: "entry = drop idx buffer ! j"
        by (auto simp: in_set_conv_nth)
      have "idx + j < length buffer" using j by simp
      moreover have "\<not> bit mp j" using True by simp
      ultimately have "buffer ! (idx + j) = 0" using bits[of j] by simp
      then show "entry = 0" using e j by simp
    qed
    then have "filter (\<lambda>entry. entry \<noteq> 0) (drop idx buffer) = []"
      by (auto simp: filter_empty_conv)
    then show ?thesis using True by (simp add: expand_matches.simps)
  next
    case False
    then obtain n where "bit mp n" by (auto simp: bit_eq_iff)
    then have lt: "idx < length buffer" using bits[of n] by simp
    let ?out' = "if mp AND 1 \<noteq> 0 then out @ [RowID cid (buffer ! idx - 1)] else out"
    have step: "expand_matches mp idx buffer cid out
                = expand_matches (drop_bit 1 mp) (idx + 1) buffer cid ?out'"
      using False by (subst expand_matches.simps) simp
    have bits': "\<And>n. bit (drop_bit 1 mp) n \<longleftrightarrow> (idx + 1 + n < length buffer \<and> buffer ! (idx + 1 + n) \<noteq> 0)"
      using bits by (simp add: bit_drop_bit_eq)
    have ih: "expand_matches (drop_bit 1 mp) (idx + 1) buffer cid ?out'
              = ?out' @ map (\<lambda>entry. RowID cid (entry - 1))
                          (filter (\<lambda>entry. entry \<noteq> 0) (drop (idx + 1) buffer))"
      by (rule "1.IH"[OF False bits'])
    have low: "(mp AND 1 \<noteq> 0) \<longleftrightarrow> buffer ! idx \<noteq> 0"
      using bits[of 0] lt by (simp add: and_one_neq_zero_iff)
    have dr: "drop idx buffer = buffer ! idx # drop (idx + 1) buffer"
      using lt by (simp add: Cons_nth_drop_Suc)
    show ?thesis
    proof (cases "buffer ! idx = 0")
      case True
      then show ?thesis unfolding step ih dr using low by simp
    next
      case nz: False
      then show ?thesis unfolding step ih dr using low by simp
    qed
  qed
qed

lemma buffer_entry_nonzero:
  "buffer_entry nullable func rv p \<noteq> 0 \<longleftrightarrow> matches nullable func rv p \<and> chunk_offset p + 1 \<noteq> 0"
  by (simp add: buffer_entry_def)

lemma buffer_entry_decode:
  "matches nullable func rv p \<Longrightarrow> buffer_entry nullable func rv p - 1 = chunk_offset p"
  by (simp add: buffer_entry_def)

lemma scan_block_buffer:
  assumes "length block \<le> 31"
  shows "scan_block nullable func block rv cid out
         = out @ map (\<lambda>entry. RowID cid (entry - 1))
                   (filter (\<lambda>entry. entry \<noteq> 0) (fill_buffer nullable func rv block))"
proof -
  let ?buffer = "fill_buffer nullable func rv block"
  have len: "0 + length ?buffer \<le> 31" using assms by (simp add: fill_buffer_def)
  have "expand_matches (collect_match_positions ?buffer 0 0) 0 ?buffer cid out
        = out @ map (\<lambda>entry. RowID cid (entry - 1)) (filter (\<lambda>entry. entry \<noteq> 0) (drop 0 ?buffer))"
    by (rule expand_matches_filter) (simp add: bit_collect_match_positions[OF len])
  then show ?thesis by (simp add: scan_block_def Let_def)
qed

lemma scan_block_filter:
  assumes "length block \<le> 31"
  shows "scan_block nullable func block rv cid out
         = out @ emit_range cid
             (filter (\<lambda>p. matches nullable func rv p \<and> chunk_offset p + 1 \<noteq> 0) block)"
proof -
  have "map (\<lambda>entry. RowID cid (entry - 1))
          (filter (\<lambda>entry. entry \<noteq> 0) (fill_buffer nullable func rv block))
        = emit_range cid (filter (\<lambda>p. matches nullable func rv p \<and> chunk_offset p + 1 \<noteq> 0) block)"
    unfolding fill_buffer_def emit_range_def filter_map map_map
    by (rule map_cong[OF arg_cong2[where f = filter]])
       (auto simp add: buffer_entry_nonzero buffer_entry_decode fun_eq_iff)
  then show ?thesis by (simp add: scan_block_buffer[OF assms])
qed

lemma BUFFER_SIZE_bounds:
  "3 \<le> sz \<Longrightarrow> sz \<le> 64 \<Longrightarrow> 0 < BUFFER_SIZE sz \<and> BUFFER_SIZE sz \<le> 31"
proof -
  assume a: "3 \<le> sz" "sz \<le> 64"
  have "64 div sz \<le> 64 div 3" using a(1) by (intro div_le_mono2) simp_all
  moreover have "0 < 64 div sz" using a by (simp add: div_greater_zero_iff)
  ultimately show ?thesis by (simp add: BUFFER_SIZE_def SIMD_SIZE_def)
qed

lemma scan_blocks_result:
  assumes B: "0 < B" "B \<le> 31"
  shows "scan_blocks B nullable func xs rv cid out
         = Some (drop (B * ((length xs - 1) div B)) xs,
                 out @ emit_range cid
                   (filter (\<lambda>p. matches nullable func rv p \<and> chunk_offset p + 1 \<noteq> 0)
                      (take (B * ((length xs - 1) div B)) xs)))"
proof (induction "length xs" arbitrary: xs out rule: less_induct)
  case less
  let ?Q = "\<lambda>p. matches nullable func rv p \<and> chunk_offset p + 1 \<noteq> 0"
  show ?case
  proof (cases "length xs > B")
    case False
    then have "(length xs - 1) div B = 0" using B by simp
    then show ?thesis using False by (subst scan_blocks.simps) (simp add: emit_range_def)
  next
    case True
    let ?out' = "scan_block nullable func (take B xs) rv cid out"
    let ?k' = "B * ((length (drop B xs) - 1) div B)"
    have step: "scan_blocks B nullable func xs rv cid out
                = scan_blocks B nullable func (drop B xs) rv cid ?out'"
      using True by (subst scan_blocks.simps) simp
    have blk: "?out' = out @ emit_range cid (filter ?Q (take B xs))"
      by (rule scan_block_filter) (use B in simp)
    have shorter: "length (drop B xs) < length xs" using True B by simp
    have ih: "scan_blocks B nullable func (drop B xs) rv cid ?out'
              = Some (drop ?k' (drop B xs), ?out' @ emit_range cid (filter ?Q (take ?k' (drop B xs))))"
      by (rule less.hyps[OF shorter])
    have "(length xs - 1) div B = Suc ((length xs - 1 - B) div B)"
      using True B by (intro le_div_geq) simp_all
    then have k: "B * ((length xs - 1) div B) = B + ?k'"
      by (simp add: diff_commute)
    have dr: "drop (B + ?k') xs = drop ?k' (drop B xs)" by (simp add: add.commute)
    have tk: "take (B + ?k') xs = take B xs @ take ?k' (drop B xs)" by (simp add: take_add)
    have "scan_blocks B nullable func xs rv cid out
          = Some (drop ?k' (drop B xs), ?out' @ emit_range cid (filter ?Q (take ?k' (drop B xs))))"
      by (simp only: step ih)
    also have "\<dots> = Some (drop (B + ?k') xs, out @ emit_range cid (filter ?Q (take (B + ?k') xs)))"
      by (simp only: blk dr tk) (simp add: emit_range_def)
    finally show ?thesis by (simp only: k)
  qed
qed

lemma unary_scan_with_value_scalar:
  "IS_DEBUG \<or> \<not> IsVectorizable \<Longrightarrow>
   unary_scan_with_value IS_DEBUG IsVectorizable sz nullable func xs rv cid out
   = Some (out @ emit_range cid (filter (matches nullable func rv) xs))"
  by (auto simp add: unary_scan_with_value_def scan_remainder_filter)

lemma unary_scan_with_value_vectorized:
  assumes "3 \<le> sz" "sz \<le> 64"
  shows "unary_scan_with_value False True sz nullable func xs rv cid out
   = Some (out @ emit_range cid
             (filter (\<lambda>p. matches nullable func rv p \<and> chunk_offset p + 1 \<noteq> 0)
                (take (BUFFER_SIZE sz * ((length xs - 1) div BUFFER_SIZE sz)) xs)
              @ filter (matches nullable func rv)
                (drop (BUFFER_SIZE sz * ((length xs - 1) div BUFFER_SIZE sz)) xs)))"
proof -
  have B: "0 < BUFFER_SIZE sz" "BUFFER_SIZE sz \<le> 31"
    using BUFFER_SIZE_bounds[OF assms] by simp_all
  show ?thesis
    by (simp add: unary_scan_with_value_def scan_blocks_result[OF B] scan_remainder_filter
        emit_range_def)
qed

lemma unary_scan_with_value_cases:
  assumes "3 \<le> sz" "sz \<le> 64"
  shows "\<exists>k. unary_scan_with_value IS_DEBUG IsVectorizable sz nullable func xs rv cid out
   = Some (out @ emit_range cid
             (filter (\<lambda>p. matches nullable func rv p \<and> chunk_offset p + 1 \<noteq> 0) (take k xs)
              @ filter (matches nullable func rv) (drop k xs)))"
proof (cases "IS_DEBUG \<or> \<not> IsVectorizable")
  case True
  have "unary_scan_with_value IS_DEBUG IsVectorizable sz nullable func xs rv cid out
   = Some (out @ emit_range cid
             (filter (\<lambda>p. matches nullable func rv p \<and> chunk_offset p + 1 \<noteq> 0) (take 0 xs)
              @ filter (matches nullable func rv) (drop 0 xs)))"
    using unary_scan_with_value_scalar[OF True] by simp
  then show ?thesis by blast
next
  case False
  then have f: "IS_DEBUG = False" "IsVectorizable = True" by simp_all
  show ?thesis unfolding f
    by (rule exI) (rule unary_scan_with_value_vectorized[OF assms])
qed

section \<open>Emitted positions come from the null-free range\<close>

lemma iterator_range_set:
  "x \<in> set (iterator_range xs b e) \<longleftrightarrow> (\<exists>i. b \<le> i \<and> i < e \<and> i < length xs \<and> xs ! i = x)"
proof
  assume "x \<in> set (iterator_range xs b e)"
  then obtain j where j: "j < length (take (e - b) (drop b xs))"
    and x: "take (e - b) (drop b xs) ! j = x"
    by (auto simp: iterator_range_def in_set_conv_nth)
  from j have "j < e - b" and "j < length xs - b" by simp_all
  then have bj: "b + j < e" "b + j < length xs" by linarith+
  moreover have "xs ! (b + j) = x" using x j bj by (simp add: nth_drop)
  ultimately show "\<exists>i. b \<le> i \<and> i < e \<and> i < length xs \<and> xs ! i = x"
    by (intro exI[of _ "b + j"]) simp
next
  assume "\<exists>i. b \<le> i \<and> i < e \<and> i < length xs \<and> xs ! i = x"
  then obtain i where i: "b \<le> i" "i < e" "i < length xs" "xs ! i = x" by blast
  from i have ib: "i - b < e - b" "i - b < length xs - b" by linarith+
  then have "i - b < length (take (e - b) (drop b xs))" by simp
  moreover have "take (e - b) (drop b xs) ! (i - b) = x" using i ib by (simp add: nth_drop)
  ultimately show "x \<in> set (iterator_range xs b e)"
    unfolding iterator_range_def in_set_conv_nth by blast
qed

lemma iterator_range_mono:
  assumes "b \<le> b'" and "e' \<le> e"
  shows "set (iterator_range xs b' e') \<subseteq> set (iterator_range xs b e)"
proof
  fix x assume "x \<in> set (iterator_range xs b' e')"
  then obtain i where i: "b' \<le> i" "i < e'" "i < length xs" "xs ! i = x"
    unfolding iterator_range_set by blast
  have "b \<le> i \<and> i < e \<and> i < length xs \<and> xs ! i = x" using i assms by simp
  then show "x \<in> set (iterator_range xs b e)" unfolding iterator_range_set by blast
qed

lemma lower_bound_bounds:
  "b \<le> e \<Longrightarrow> b \<le> lower_bound xs b e v cmp \<and> lower_bound xs b e v cmp \<le> e"
  using lower_bound_loop_bounds[of b xs "e - b" v cmp] by (simp add: lower_bound_def)

lemma upper_bound_bounds:
  "b \<le> e \<Longrightarrow> b \<le> upper_bound xs b e v cmp \<and> upper_bound xs b e v cmp \<le> e"
  using upper_bound_loop_bounds[of b xs "e - b" v cmp] by (simp add: upper_bound_def)

lemma first_bound_bounds:
  "begin_it s \<le> end_it s \<Longrightarrow> begin_it s \<le> get_first_bound s \<and> get_first_bound s \<le> end_it s"
  by (simp add: get_first_bound_def lower_bound_bounds)

lemma last_bound_bounds:
  "begin_it s \<le> end_it s \<Longrightarrow> begin_it s \<le> get_last_bound s \<and> get_last_bound s \<le> end_it s"
  by (simp add: get_last_bound_def upper_bound_bounds)

lemma set_begin_and_end_subset:
  assumes le: "begin_it s \<le> end_it s" and ok: "set_begin_and_end s = Inr s'"
  shows "set (iterator_range (positions s') (begin_it s') (end_it s'))
         \<subseteq> set (iterator_range (positions s) (begin_it s) (end_it s))"
proof -
  note fb = first_bound_bounds[OF le] and lb = last_bound_bounds[OF le]
  have lb1: "get_last_bound (s\<lparr>begin_it := get_first_bound s\<rparr>) \<le> end_it s"
    using last_bound_bounds[of "s\<lparr>begin_it := get_first_bound s\<rparr>"] fb by simp
  have "positions s' = positions s \<and> begin_it s \<le> begin_it s' \<and> end_it s' \<le> end_it s"
    using ok fb lb lb1
    by (auto simp add: set_begin_and_end_def Let_def split: if_splits PredicateCondition.splits)
  then show ?thesis by (simp add: iterator_range_mono)
qed

lemma handle_not_equals_functor:
  "handle_not_equals f s = f (handle_not_equals (\<lambda>r. r) s)"
  by (simp add: handle_not_equals_def Let_def)

lemma scan_sorted_segment_functor:
  "scan_sorted_segment f s
   = (case scan_sorted_segment (\<lambda>r. r) s of Inl e \<Rightarrow> Inl e | Inr r \<Rightarrow> Inr (f r))"
  by (simp add: scan_sorted_segment_def Let_def handle_not_equals_functor[of f]
      split: sum.splits)

lemma handle_not_equals_subset:
  assumes le: "begin_it s \<le> end_it s"
  shows "set (handle_not_equals (\<lambda>r. r) s)
         \<subseteq> set (iterator_range (positions s) (begin_it s) (end_it s))"
proof -
  note fb = first_bound_bounds[OF le] and lb = last_bound_bounds[OF le]
  have 1: "set (iterator_range (positions s) (begin_it s) (get_first_bound s))
           \<subseteq> set (iterator_range (positions s) (begin_it s) (end_it s))"
    using fb by (intro iterator_range_mono) simp_all
  have 2: "set (iterator_range (positions s) (get_last_bound s) (end_it s))
           \<subseteq> set (iterator_range (positions s) (begin_it s) (end_it s))"
    using lb by (intro iterator_range_mono) simp_all
  show ?thesis using 1 2 by (auto simp add: handle_not_equals_def Let_def)
qed

lemma exclude_nulls_ordered:
  assumes np: "nulls_placed order_by xs"
  shows "begin_it (exclude_nulls (make_SortedSegmentSearch xs order_by cond v))
         \<le> end_it (exclude_nulls (make_SortedSegmentSearch xs order_by cond v))"
proof (cases "order_by = Ascending \<or> order_by = Descending")
  case True
  show ?thesis unfolding exclude_nulls_first[OF np True] by simp
next
  case False
  show ?thesis unfolding exclude_nulls_last[OF np False] by simp
qed

lemma scan_sorted_segment_positions:
  assumes np: "nulls_placed order_by xs"
    and r: "scan_sorted_segment (\<lambda>r. r) (make_SortedSegmentSearch xs order_by cond v) = Inr ps"
  shows "set ps \<subseteq> set (filter (\<lambda>p. \<not> is_null p) xs)"
proof -
  define s where "s = exclude_nulls (make_SortedSegmentSearch xs order_by cond v)"
  have le: "begin_it s \<le> end_it s" unfolding s_def by (rule exclude_nulls_ordered[OF np])
  have rng: "iterator_range (positions s) (begin_it s) (end_it s) = filter (\<lambda>p. \<not> is_null p) xs"
    using exclude_nulls_range[OF np, of cond v] by (simp add: s_def)
  show ?thesis
  proof (cases "cond = NotEquals")
    case True
    then have "ps = handle_not_equals (\<lambda>r. r) s"
      using r by (simp add: scan_sorted_segment_def s_def Let_def)
    then show ?thesis using handle_not_equals_subset[OF le] rng by simp
  next
    case False
    then obtain s' where s': "set_begin_and_end s = Inr s'"
      and ps: "ps = iterator_range (positions s') (begin_it s') (end_it s')"
      using r by (auto simp add: scan_sorted_segment_def s_def Let_def split: sum.splits)
    show ?thesis using set_begin_and_end_subset[OF le s'] rng ps by simp
  qed
qed

lemma emit_range_no_null_row:
  assumes d: "distinct (map chunk_offset xs)" and sub: "set ps \<subseteq> set xs"
    and nn: "\<forall>p\<in>set ps. \<not> is_null p"
  shows "no_null_row cid xs (out @ emit_range cid ps) \<longleftrightarrow> no_null_row cid xs out"
proof -
  have "RowID cid (chunk_offset p) \<notin> set (emit_range cid ps)" if p: "p \<in> set xs" "is_null p" for p
  proof
    assume "RowID cid (chunk_offset p) \<in> set (emit_range cid ps)"
    then obtain q where q: "q \<in> set ps" "chunk_offset q = chunk_offset p"
      by (auto simp: emit_range_def)
    then have "q \<in> set xs" using sub by blast
    then have "q = p" using d q(2) p(1) by (meson distinct_map inj_onD)
    then show False using nn q(1) p(2) by simp
  qed
  then show ?thesis by (auto simp: no_null_row_def)
qed

lemma emit_range_filter_no_null_row:
  assumes d: "distinct (map chunk_offset xs)" and nn: "\<forall>p\<in>set ps. \<not> is_null p" and sub: "set ps \<subseteq> set xs"
  shows "no_null_row cid xs (emit_range cid ps)"
  using emit_range_no_null_row[OF d sub nn, of cid "[]"] by (simp add: no_null_row_def)

lemma sorted_wrt_filter_take_drop:
  assumes "sorted_wrt P (map g xs)"
  shows "sorted_wrt P (map g (filter Q1 (take k xs) @ filter Q2 (drop k xs)))"
proof -
  have "sorted_wrt P (map g (take k xs @ drop k xs))" using assms by simp
  then show ?thesis
    unfolding map_append sorted_wrt_append sorted_wrt_map
    by (auto intro: sorted_wrt_filter)
qed

lemma row_offset_emit_range: "map row_offset (emit_range cid ps) = map chunk_offset ps"
  by (simp add: emit_range_def)

lemma sorted_wrt_map_fst_filter_zip:
  assumes "sorted_wrt P (map g xs)" and "length ys = length xs"
  shows "sorted_wrt P (map g (map fst (filter Q (zip xs ys))))"
proof -
  have "map fst (zip xs ys) = xs" using assms(2) by simp
  then have "sorted_wrt P (map (g \<circ> fst) (zip xs ys))"
    using assms(1) by (metis map_map)
  then have "sorted_wrt (\<lambda>a b. P ((g \<circ> fst) a) ((g \<circ> fst) b)) (filter Q (zip xs ys))"
    unfolding sorted_wrt_map by (rule sorted_wrt_filter)
  then show ?thesis by (simp add: sorted_wrt_map)
qed

lemma zip_right_unique:
  assumes "distinct xs" and "(l, r) \<in> set (zip xs ys)" and "(l, r') \<in> set (zip xs ys)"
  shows "r = r'"
proof -
  obtain i where i: "i < length xs" "i < length ys" "xs ! i = l" "ys ! i = r"
    using assms(2) by (auto simp: in_set_zip)
  obtain j where j: "j < length xs" "j < length ys" "xs ! j = l" "ys ! j = r'"
    using assms(3) by (auto simp: in_set_zip)
  have "xs ! i = xs ! j" using i j by simp
  then have "i = j" using assms(1) i(1) j(1) by (simp add: nth_eq_iff_index_eq)
  then show ?thesis using i j by simp
qed

lemma binary_scan_no_null_pair:
  assumes d: "distinct (map chunk_offset xs)" and len: "length ys = length xs"
    and lr: "(l, r) \<in> set (zip xs ys)" and null: "is_null l \<or> is_null r"
  shows "RowID cid (chunk_offset l)
         \<notin> set (emit_range cid (map fst (filter (\<lambda>(l, r). \<not> is_null l \<and> \<not> is_null r
              \<and> func (pos_value l) (pos_value r)) (zip xs ys))))"
proof
  assume "RowID cid (chunk_offset l)
         \<in> set (emit_range cid (map fst (filter (\<lambda>(l, r). \<not> is_null l \<and> \<not> is_null r
              \<and> func (pos_value l) (pos_value r)) (zip xs ys))))"
  then obtain l' r' where p: "(l', r') \<in> set (zip xs ys)" "\<not> is_null l'" "\<not> is_null r'"
    and o: "chunk_offset l' = chunk_offset l"
    by (auto simp: emit_range_def)
  have "l' \<in> set xs" "l \<in> set xs" using p(1) lr by (auto dest: set_zip_leftD)
  then have ll: "l' = l" using d o by (meson distinct_map inj_onD)
  have "distinct xs" using d by (simp add: distinct_map)
  then have "r' = r" using zip_right_unique p(1) lr ll by fastforce
  then show False using null p ll by simp
qed

lemma emit_range_null_free_result:
  assumes sub: "set ps \<subseteq> set xs" and nn: "\<forall>p\<in>set ps. \<not> is_null p"
  shows "null_free_result cid xs (emit_range cid ps)"
proof -
  have "rows_of_non_null cid xs (emit_range cid ps)"
    using sub nn by (auto simp: rows_of_non_null_def emit_range_def)
  moreover have "no_null_row cid xs (emit_range cid ps)" if "distinct (map chunk_offset xs)"
    by (rule emit_range_filter_no_null_row[OF that nn sub])
  ultimately show ?thesis by (simp add: null_free_result_def)
qed

lemma unary_scan_null_free:
  "null_free_result cid xs (unary_scan func xs cid [])"
  unfolding unary_scan_filter append_Nil
  by (rule emit_range_null_free_result) auto

lemma unary_scan_sub_null_free:
  assumes "set ps \<subseteq> set xs"
  shows "null_free_result cid xs (unary_scan func ps cid [])"
  unfolding unary_scan_filter append_Nil
  by (rule emit_range_null_free_result) (use assms in auto)

lemma unary_scan_with_value_null_free:
  assumes t: "LeftIsNullable \<or> (\<forall>p\<in>set xs. \<not> is_null p)" and sz: "3 \<le> sz" "sz \<le> 64"
  shows "\<exists>r. unary_scan_with_value IS_DEBUG IsVectorizable sz LeftIsNullable func xs rv cid [] = Some r
             \<and> null_free_result cid xs r"
proof -
  let ?Q = "\<lambda>p. matches LeftIsNullable func rv p \<and> chunk_offset p + 1 \<noteq> 0"
  obtain k where k: "unary_scan_with_value IS_DEBUG IsVectorizable sz LeftIsNullable func xs rv cid []
      = Some ([] @ emit_range cid (filter ?Q (take k xs) @ filter (matches LeftIsNullable func rv) (drop k xs)))"
    using unary_scan_with_value_cases[OF sz, of IS_DEBUG IsVectorizable LeftIsNullable func xs rv cid "[]"]
    by (elim exE)
  let ?ps = "filter ?Q (take k xs) @ filter (matches LeftIsNullable func rv) (drop k xs)"
  have sub: "set ?ps \<subseteq> set xs" by (auto dest: in_set_takeD in_set_dropD)
  have m: "\<forall>p\<in>set ?ps. matches LeftIsNullable func rv p" by auto
  have nn: "\<forall>p\<in>set ?ps. \<not> is_null p"
  proof
    fix p assume p: "p \<in> set ?ps"
    then have "matches LeftIsNullable func rv p" and "p \<in> set xs" using m sub by blast+
    then show "\<not> is_null p" using t by (auto simp: matches_def)
  qed
  have "null_free_result cid xs (emit_range cid ?ps)"
    by (rule emit_range_null_free_result[OF sub nn])
  then show ?thesis using k by simp
qed

lemma binary_scan_null_free:
  assumes len: "length ys = length xs"
  shows "\<exists>r. binary_scan func xs ys cid [] = Some r \<and> null_free_result cid xs r
           \<and> (distinct (map chunk_offset xs) \<longrightarrow>
                (\<forall>(l, r')\<in>set (zip xs ys). is_null l \<or> is_null r'
                    \<longrightarrow> RowID cid (chunk_offset l) \<notin> set r))"
proof -
  let ?ps = "map fst (filter (\<lambda>(l, r). \<not> is_null l \<and> \<not> is_null r
              \<and> func (pos_value l) (pos_value r)) (zip xs ys))"
  have r: "binary_scan func xs ys cid [] = Some (emit_range cid ?ps)"
    using binary_scan_filter[OF len, of func cid "[]"] by simp
  have sub: "set ?ps \<subseteq> set xs" by (auto dest: set_zip_leftD)
  have nn: "\<forall>p\<in>set ?ps. \<not> is_null p" by auto
  have nf: "null_free_result cid xs (emit_range cid ?ps)"
    by (rule emit_range_null_free_result[OF sub nn])
  have pairs: "\<forall>(l, r')\<in>set (zip xs ys). is_null l \<or> is_null r'
                    \<longrightarrow> RowID cid (chunk_offset l) \<notin> set (emit_range cid ?ps)"
    if d: "distinct (map chunk_offset xs)"
  proof (intro ballI, clarify)
    fix l r' assume "(l, r') \<in> set (zip xs ys)" and "is_null l \<or> is_null r'"
      and "RowID cid (chunk_offset l) \<in> set (emit_range cid ?ps)"
    then show False using binary_scan_no_null_pair[OF d len, of l r' cid func] by simp
  qed
  show ?thesis
  proof (intro exI conjI)
    show "binary_scan func xs ys cid [] = Some (emit_range cid ?ps)" by (rule r)
    show "null_free_result cid xs (emit_range cid ?ps)" by (rule nf)
    show "distinct (map chunk_offset xs) \<longrightarrow>
                (\<forall>(l, r')\<in>set (zip xs ys). is_null l \<or> is_null r'
                    \<longrightarrow> RowID cid (chunk_offset l) \<notin> set (emit_range cid ?ps))"
      using pairs by (intro impI)
  qed
qed

lemma scan_sorted_segment_emitted:
  assumes "scan_sorted_segment f s = Inr r"
  shows "\<exists>ps. scan_sorted_segment (\<lambda>r. r) s = Inr ps \<and> r = f ps"
proof -
  have "(case scan_sorted_segment (\<lambda>r. r) s of Inl e \<Rightarrow> Inl e | Inr r \<Rightarrow> Inr (f r)) = Inr r"
    using assms scan_sorted_segment_functor[of f s] by simp
  then show ?thesis by (cases "scan_sorted_segment (\<lambda>r. r) s") simp_all
qed

section \<open>Dispatch of the segment iteration\<close>

lemma segment_with_iterators_filtered_fails:
  assumes "filtered_positions (iterable base_segment) = None"
  shows "segment_with_iterators_filtered IS_DEBUG T type_erasure base_segment (Some position_filter) f
         = Inl NonPointAccessibleWithPositionFilter"
  using assms
  by (cases T)
    (simp_all add: any_with_iterators_filtered_def with_iterators_filtered_def
      create_any_segment_iterable_def create_iterable_from_segment_def
      is_point_accessible_segment_iterable_def Let_def)

lemma segment_with_iterators_all:
  "segment_with_iterators IS_DEBUG T type_erasure base_segment f
   = f (all_positions (iterable base_segment))"
  by (cases T)
    (simp_all add: any_with_iterators_def with_iterators_def create_any_segment_iterable_def
      create_iterable_from_segment_def)

section \<open>Claims about the sorted-range narrowing\<close>



text \<open>
  C3. On a sorted range whose nulls have been excluded, \<open>_handle_not_equals\<close> hands the
  functor: the whole range if \<open>first_bound\<close> is the range end; otherwise
  \<open>[begin, first_bound)\<close> if \<open>last_bound\<close> is the range end; otherwise
  \<open>[last_bound, end)\<close> if \<open>first_bound\<close> is the range begin; otherwise the join of
  \<open>[begin, first_bound)\<close> and \<open>[last_bound, end)\<close> as one range. The bounds are
  ordered, so when the chunk offsets of the input increase strictly, those of the emitted
  positions do so too, across the seam of the join in particular.
\<close>

theorem handle_not_equals_ranges:
  fixes v :: "'a::linorder"
  assumes sp: "sorted_per order_by xs" and inc: "sorted_wrt (<) (map chunk_offset xs)"
  shows "let s = exclude_nulls (make_SortedSegmentSearch xs order_by NotEquals v);
             first_bound = get_first_bound s; last_bound = get_last_bound s
         in handle_not_equals f s
            = f (if first_bound = end_it s then iterator_range xs (begin_it s) (end_it s)
                 else if last_bound = end_it s then iterator_range xs (begin_it s) first_bound
                 else if first_bound = begin_it s then iterator_range xs last_bound (end_it s)
                 else iterator_range xs (begin_it s) first_bound
                      @ iterator_range xs last_bound (end_it s))
          \<and> begin_it s \<le> first_bound \<and> first_bound \<le> last_bound \<and> last_bound \<le> end_it s
          \<and> end_it s \<le> length xs
          \<and> sorted_wrt (<) (map chunk_offset (handle_not_equals (\<lambda>r. r) s))"
proof -
  define s where "s = exclude_nulls (make_SortedSegmentSearch xs order_by NotEquals v)"
  obtain pre A E B post where d: "decomposed s pre A E B post"
    and xs: "xs = pre @ A @ E @ B @ post"
    using sorted_per_decomposed[OF sp, of NotEquals v] unfolding s_def by blast
  have fb: "get_first_bound s = length pre + length A" by (rule decomposed_first_bound[OF d])
  have lb: "get_last_bound s = length pre + length A + length E" by (rule decomposed_last_bound_same[OF d])
  have b: "begin_it s = length pre" and e: "end_it s = length pre + length A + length E + length B"
    using d by (simp_all add: decomposed_def)
  have ps: "positions s = xs" by (simp add: s_def)
  have len: "length xs = length pre + length A + length E + length B + length post"
    by (subst xs) simp
  have cascade: "handle_not_equals f s
            = f (if get_first_bound s = end_it s then iterator_range xs (begin_it s) (end_it s)
                 else if get_last_bound s = end_it s then iterator_range xs (begin_it s) (get_first_bound s)
                 else if get_first_bound s = begin_it s then iterator_range xs (get_last_bound s) (end_it s)
                 else iterator_range xs (begin_it s) (get_first_bound s)
                      @ iterator_range xs (get_last_bound s) (end_it s))"
    by (simp add: handle_not_equals_def Let_def ps)
  have order: "begin_it s \<le> get_first_bound s \<and> get_first_bound s \<le> get_last_bound s
       \<and> get_last_bound s \<le> end_it s \<and> end_it s \<le> length xs"
    by (simp add: fb lb b e len)
  have "sorted_wrt (<) (map chunk_offset (A @ B))"
    using inc unfolding xs by (rule sorted_wrt_outer)
  then have seam: "sorted_wrt (<) (map chunk_offset (handle_not_equals (\<lambda>r. r) s))"
    by (simp only: handle_not_equals_decomposed[OF d])
  show ?thesis
    unfolding Let_def s_def[symmetric] using cascade order seam by blast
qed

theorem handle_not_equals_ranges_witness:
  "sorted_per Ascending ascending_with_duplicates
   \<and> sorted_wrt (<) (map chunk_offset ascending_with_duplicates)
   \<and> get_first_bound (exclude_nulls (make_SortedSegmentSearch ascending_with_duplicates Ascending NotEquals 2)) = 2
   \<and> get_last_bound (exclude_nulls (make_SortedSegmentSearch ascending_with_duplicates Ascending NotEquals 2)) = 4
   \<and> handle_not_equals (emit_range 0)
        (exclude_nulls (make_SortedSegmentSearch ascending_with_duplicates Ascending NotEquals 2))
      = emit_range 0 (iterator_range ascending_with_duplicates 0 2
                      @ iterator_range ascending_with_duplicates 4 5)
   \<and> sorted_wrt (<) (map chunk_offset (handle_not_equals (\<lambda>r. r)
        (exclude_nulls (make_SortedSegmentSearch ascending_with_duplicates Ascending NotEquals 2))))"
proof -
  let ?s = "exclude_nulls (make_SortedSegmentSearch ascending_with_duplicates Ascending NotEquals 2)"
  have s: "sorted_per Ascending ascending_with_duplicates"
    by (simp add: sorted_per_def nulls_placed_def values_ordered_def ascending_with_duplicates_def)
  have i: "sorted_wrt (<) (map chunk_offset ascending_with_duplicates)"
    by (simp add: ascending_with_duplicates_def)
  have fb: "get_first_bound ?s = 2" and lb: "get_last_bound ?s = 4"
    and b: "begin_it ?s = 0" and e: "end_it ?s = 5" by code_simp+
  note t = handle_not_equals_ranges[OF s i, of 2 "emit_range 0"]
  have "handle_not_equals (emit_range 0) ?s
        = emit_range 0 (iterator_range ascending_with_duplicates 0 2
                        @ iterator_range ascending_with_duplicates 4 5)"
    using t by (simp add: Let_def fb lb b e)
  moreover have "sorted_wrt (<) (map chunk_offset (handle_not_equals (\<lambda>r. r) ?s))"
    using t by (simp add: Let_def)
  ultimately show ?thesis using s i fb lb by simp
qed

text \<open>
  C4. For every range sorted per an \<open>OrderByMode\<close> and every search value, the positions
  that \<open>scan_sorted_segment\<close> hands to the functor for \<open>NotEquals\<close> are those of the
  null-free range (the range left by the exclusion of the nulls) without the ones it
  hands over for \<open>Equals\<close>; with distinct chunk offsets the same holds for the emitted
  row ids.
\<close>

theorem not_equals_is_complement_of_equals:
  fixes v :: "'a::linorder"
  assumes sp: "sorted_per order_by xs"
  shows "\<exists>ne eq.
           scan_sorted_segment (\<lambda>r. r) (make_SortedSegmentSearch xs order_by NotEquals v) = Inr ne
         \<and> scan_sorted_segment (\<lambda>r. r) (make_SortedSegmentSearch xs order_by Equals v) = Inr eq
         \<and> (let s = exclude_nulls (make_SortedSegmentSearch xs order_by NotEquals v);
                null_free = iterator_range (positions s) (begin_it s) (end_it s)
            in set ne = set null_free - set eq
             \<and> (distinct (map chunk_offset xs) \<longrightarrow>
                  set (emit_range cid ne) = set (emit_range cid null_free) - set (emit_range cid eq)))"
proof -
  let ?ne = "filter (\<lambda>p. \<not> is_null p \<and> comparator NotEquals (pos_value p) v) xs"
  let ?eq = "filter (\<lambda>p. \<not> is_null p \<and> comparator Equals (pos_value p) v) xs"
  let ?nf = "filter (\<lambda>p. \<not> is_null p) xs"
  have ne: "scan_sorted_segment (\<lambda>r. r) (make_SortedSegmentSearch xs order_by NotEquals v) = Inr ?ne"
    by (rule scan_sorted_segment_filter[OF sp]) (simp add: is_comparison_def)
  have eq: "scan_sorted_segment (\<lambda>r. r) (make_SortedSegmentSearch xs order_by Equals v) = Inr ?eq"
    by (rule scan_sorted_segment_filter[OF sp]) (simp add: is_comparison_def)
  have np: "nulls_placed order_by xs" using sp by (simp add: sorted_per_def)
  have nf: "iterator_range (positions (exclude_nulls (make_SortedSegmentSearch xs order_by NotEquals v)))
              (begin_it (exclude_nulls (make_SortedSegmentSearch xs order_by NotEquals v)))
              (end_it (exclude_nulls (make_SortedSegmentSearch xs order_by NotEquals v))) = ?nf"
    using exclude_nulls_range[OF np, of NotEquals v] by simp
  have sets: "set ?ne = set ?nf - set ?eq" by auto
  have rows: "set (emit_range cid ?ne) = set (emit_range cid ?nf) - set (emit_range cid ?eq)"
    if dist: "distinct (map chunk_offset xs)"
  proof -
    have inj: "inj_on (\<lambda>p. RowID cid (chunk_offset p)) (set xs)"
      using dist by (auto simp: inj_on_def distinct_map)
    have "(\<lambda>p. RowID cid (chunk_offset p)) ` (set ?nf - set ?eq)
          = (\<lambda>p. RowID cid (chunk_offset p)) ` set ?nf - (\<lambda>p. RowID cid (chunk_offset p)) ` set ?eq"
      by (rule inj_on_image_set_diff[OF inj]) auto
    then show ?thesis using sets by (simp add: emit_range_def)
  qed
  show ?thesis unfolding Let_def nf using ne eq sets rows by blast
qed

theorem not_equals_is_complement_of_equals_witness:
  "sorted_per DescendingNullsLast descending_nulls_last
   \<and> distinct (map chunk_offset descending_nulls_last)
   \<and> (\<exists>ne eq.
        scan_sorted_segment (\<lambda>r. r)
          (make_SortedSegmentSearch descending_nulls_last DescendingNullsLast NotEquals 3) = Inr ne
      \<and> scan_sorted_segment (\<lambda>r. r)
          (make_SortedSegmentSearch descending_nulls_last DescendingNullsLast Equals 3) = Inr eq
      \<and> set (emit_range 0 ne)
        = set (emit_range 0 (iterator_range descending_nulls_last 0 5)) - set (emit_range 0 eq))"
proof -
  let ?s = "exclude_nulls (make_SortedSegmentSearch descending_nulls_last DescendingNullsLast NotEquals 3)"
  have s: "sorted_per DescendingNullsLast descending_nulls_last"
    by (simp add: sorted_per_def nulls_placed_def values_ordered_def descending_nulls_last_def)
  have d: "distinct (map chunk_offset descending_nulls_last)"
    by (simp add: descending_nulls_last_def)
  have r: "positions ?s = descending_nulls_last" "begin_it ?s = 0" "end_it ?s = 5" by code_simp+
  note t = not_equals_is_complement_of_equals[OF s, of 3 0]
  show ?thesis using s d t unfolding Let_def r by blast
qed

text \<open>
  C7. For every predicate condition outside the six comparisons (\<open>IsNull\<close>, \<open>Like\<close>,
  ...), \<open>scan_sorted_segment\<close> reaches \<open>_set_begin_and_end\<close>, whose mapping fails with
  the unsupported-predicate error, whatever the sort order and whatever the functor (which
  is therefore never run); for each of the six comparisons the scan does not fail.
\<close>

theorem scan_sorted_segment_unsupported_predicate:
  "(\<not> is_comparison cond \<longrightarrow>
      set_begin_and_end (exclude_nulls (make_SortedSegmentSearch xs order_by cond v))
        = Inl UnsupportedPredicateCondition
    \<and> scan_sorted_segment f (make_SortedSegmentSearch xs order_by cond v)
        = Inl UnsupportedPredicateCondition)
   \<and> (is_comparison cond \<longrightarrow>
      (\<exists>r. scan_sorted_segment f (make_SortedSegmentSearch xs order_by cond v) = Inr r))"
  by (cases cond) (simp_all add: is_comparison_def scan_sorted_segment_def set_begin_and_end_def
      exclude_nulls_def make_SortedSegmentSearch_def Let_def)

theorem scan_sorted_segment_unsupported_predicate_witness:
  "scan_sorted_segment (emit_range 0) (make_SortedSegmentSearch [] Ascending Like (0::int))
     = Inl UnsupportedPredicateCondition
   \<and> scan_sorted_segment (emit_range 0) (make_SortedSegmentSearch [] Descending IsNull (0::int))
     = Inl UnsupportedPredicateCondition
   \<and> (\<exists>r. scan_sorted_segment (emit_range 0) (make_SortedSegmentSearch [] Ascending Equals (0::int))
          = Inr r)"
  using scan_sorted_segment_unsupported_predicate
          [where cond = Like and xs = "[]" and order_by = Ascending and v = "0::int"
             and f = "emit_range 0"]
        scan_sorted_segment_unsupported_predicate
          [where cond = IsNull and xs = "[]" and order_by = Descending and v = "0::int"
             and f = "emit_range 0"]
        scan_sorted_segment_unsupported_predicate
          [where cond = Equals and xs = "[]" and order_by = Ascending and v = "0::int"
             and f = "emit_range 0"]
  by (simp add: is_comparison_def)

section \<open>Claims about the scan loops\<close>

text \<open>
  C5. No row id in a returned position list belongs to a null position, for every
  predicate condition and functor, with and without the narrowing. For the narrowed path
  the nulls are one run at the end that the \<open>OrderByMode\<close> dictates; then the single
  binary search of \<open>scan_sorted_segment\<close> leaves exactly the positions that are not null,
  and every position handed to the functor is one of them. For \<open>_unary_scan_with_value\<close>
  the flag \<open>LeftIsNullable\<close> is set or the range has no null. Every emitted row is the
  row of a position that is not null and, where chunk offsets identify the positions of the
  range, the row of no null position is emitted; the binary scan emits no row of a pair
  with a null on either side.
\<close>

theorem no_null_position_emitted:
  fixes v :: "'a::linorder"
  shows "(nulls_placed order_by xs \<longrightarrow>
            (let s = exclude_nulls (make_SortedSegmentSearch xs order_by cond v)
             in iterator_range xs (begin_it s) (end_it s) = filter (\<lambda>p. \<not> is_null p) xs)
          \<and> (\<forall>ps. scan_sorted_segment (\<lambda>r. r) (make_SortedSegmentSearch xs order_by cond v) = Inr ps
                \<longrightarrow> (\<forall>p\<in>set ps. p \<in> set xs \<and> \<not> is_null p))
          \<and> (\<forall>r. scan_sorted_segment (emit_range cid) (make_SortedSegmentSearch xs order_by cond v) = Inr r
                \<longrightarrow> null_free_result cid xs r)
          \<and> (\<forall>r. scan_sorted_segment (\<lambda>ps. unary_scan func ps cid [])
                    (make_SortedSegmentSearch xs order_by cond v) = Inr r
                \<longrightarrow> null_free_result cid xs r))
       \<and> null_free_result cid xs (unary_scan func xs cid [])
       \<and> ((LeftIsNullable \<or> (\<forall>p\<in>set xs. \<not> is_null p)) \<and> 3 \<le> sizeof_ValueID \<and> sizeof_ValueID \<le> 64 \<longrightarrow>
            (\<exists>r. unary_scan_with_value IS_DEBUG IsVectorizable sizeof_ValueID LeftIsNullable func2 xs rv cid []
                    = Some r
                \<and> null_free_result cid xs r))
       \<and> (length ys = length xs \<longrightarrow>
            (\<exists>r. binary_scan func3 xs ys cid [] = Some r \<and> null_free_result cid xs r
                \<and> (distinct (map chunk_offset xs) \<longrightarrow>
                     (\<forall>(l, r')\<in>set (zip xs ys). is_null l \<or> is_null r'
                         \<longrightarrow> RowID cid (chunk_offset l) \<notin> set r))))"
proof (intro conjI impI)
  assume np: "nulls_placed order_by xs"
  show "let s = exclude_nulls (make_SortedSegmentSearch xs order_by cond v)
        in iterator_range xs (begin_it s) (end_it s) = filter (\<lambda>p. \<not> is_null p) xs"
    unfolding Let_def by (rule exclude_nulls_range[OF np])
  have pos: "set ps \<subseteq> set xs \<and> (\<forall>p\<in>set ps. \<not> is_null p)"
    if "scan_sorted_segment (\<lambda>r. r) (make_SortedSegmentSearch xs order_by cond v) = Inr ps" for ps
    using scan_sorted_segment_positions[OF np that] by auto
  show "\<forall>ps. scan_sorted_segment (\<lambda>r. r) (make_SortedSegmentSearch xs order_by cond v) = Inr ps
                \<longrightarrow> (\<forall>p\<in>set ps. p \<in> set xs \<and> \<not> is_null p)"
    using pos by blast
  show "\<forall>r. scan_sorted_segment (emit_range cid) (make_SortedSegmentSearch xs order_by cond v) = Inr r
                \<longrightarrow> null_free_result cid xs r"
  proof (intro allI impI)
    fix r assume a: "scan_sorted_segment (emit_range cid) (make_SortedSegmentSearch xs order_by cond v) = Inr r"
    from scan_sorted_segment_emitted[OF a]
    obtain ps where ps: "scan_sorted_segment (\<lambda>r. r) (make_SortedSegmentSearch xs order_by cond v) = Inr ps"
      and r: "r = emit_range cid ps"
      by (elim exE conjE)
    show "null_free_result cid xs r" unfolding r
      by (rule emit_range_null_free_result) (use pos[OF ps] in simp_all)
  qed
  show "\<forall>r. scan_sorted_segment (\<lambda>ps. unary_scan func ps cid [])
                    (make_SortedSegmentSearch xs order_by cond v) = Inr r
                \<longrightarrow> null_free_result cid xs r"
  proof (intro allI impI)
    fix r assume a: "scan_sorted_segment (\<lambda>ps. unary_scan func ps cid [])
                    (make_SortedSegmentSearch xs order_by cond v) = Inr r"
    from scan_sorted_segment_emitted[OF a]
    obtain ps where ps: "scan_sorted_segment (\<lambda>r. r) (make_SortedSegmentSearch xs order_by cond v) = Inr ps"
      and r: "r = unary_scan func ps cid []"
      by (elim exE conjE)
    show "null_free_result cid xs r" unfolding r
      by (rule unary_scan_sub_null_free) (use pos[OF ps] in simp)
  qed
next
  show "null_free_result cid xs (unary_scan func xs cid [])" by (rule unary_scan_null_free)
next
  assume "(LeftIsNullable \<or> (\<forall>p\<in>set xs. \<not> is_null p)) \<and> 3 \<le> sizeof_ValueID \<and> sizeof_ValueID \<le> 64"
  then have "LeftIsNullable \<or> (\<forall>p\<in>set xs. \<not> is_null p)" "3 \<le> sizeof_ValueID" "sizeof_ValueID \<le> 64"
    by simp_all
  then show "\<exists>r. unary_scan_with_value IS_DEBUG IsVectorizable sizeof_ValueID LeftIsNullable func2 xs rv cid []
                    = Some r \<and> null_free_result cid xs r"
    by (rule unary_scan_with_value_null_free)
next
  assume "length ys = length xs"
  then show "\<exists>r. binary_scan func3 xs ys cid [] = Some r \<and> null_free_result cid xs r
                \<and> (distinct (map chunk_offset xs) \<longrightarrow>
                     (\<forall>(l, r')\<in>set (zip xs ys). is_null l \<or> is_null r'
                         \<longrightarrow> RowID cid (chunk_offset l) \<notin> set r))"
    by (rule binary_scan_null_free)
qed

theorem no_null_position_emitted_witness:
  "nulls_placed DescendingNullsLast descending_nulls_last
   \<and> distinct (map chunk_offset descending_nulls_last)
   \<and> (True \<or> (\<forall>p\<in>set descending_nulls_last. \<not> is_null p)) \<and> (3::nat) \<le> 4 \<and> (4::nat) \<le> 64
   \<and> length (ones 7) = length descending_nulls_last
   \<and> iterator_range descending_nulls_last 0 5 = filter (\<lambda>p. \<not> is_null p) descending_nulls_last
   \<and> scan_sorted_segment (emit_range 0)
        (make_SortedSegmentSearch descending_nulls_last DescendingNullsLast LessThan 3)
      = Inr [RowID 0 3, RowID 0 4]
   \<and> no_null_row 0 descending_nulls_last [RowID 0 3, RowID 0 4]
   \<and> no_null_row 0 descending_nulls_last (unary_scan (\<lambda>x. x < 3) descending_nulls_last 0 [])
   \<and> (\<exists>r. unary_scan_with_value False True 4 True (<) descending_nulls_last 3 0 [] = Some r
          \<and> no_null_row 0 descending_nulls_last r)
   \<and> (\<exists>r. binary_scan (<) descending_nulls_last (ones 7) 0 [] = Some r
          \<and> no_null_row 0 descending_nulls_last r)"
proof -
  let ?xs = descending_nulls_last
  let ?s = "exclude_nulls (make_SortedSegmentSearch ?xs DescendingNullsLast LessThan 3)"
  have np: "nulls_placed DescendingNullsLast ?xs"
    by (simp add: nulls_placed_def descending_nulls_last_def)
  have d: "distinct (map chunk_offset ?xs)" by (simp add: descending_nulls_last_def)
  have len: "length (ones 7) = length ?xs" by (simp add: ones_def descending_nulls_last_def)
  have be: "begin_it ?s = 0" "end_it ?s = 5" by code_simp+
  have ev: "scan_sorted_segment (emit_range 0)
        (make_SortedSegmentSearch ?xs DescendingNullsLast LessThan 3) = Inr [RowID 0 3, RowID 0 4]"
    by code_simp
  note t = no_null_position_emitted[where order_by = DescendingNullsLast and xs = ?xs
      and cond = LessThan and v = 3 and cid = 0 and func = "\<lambda>x. x < 3" and LeftIsNullable = True
      and sizeof_ValueID = 4 and IS_DEBUG = False and IsVectorizable = True and ?func2.0 = "(<)"
      and rv = 3 and ys = "ones 7" and ?func3.0 = "(<)"]
  have a: "(3::nat) \<le> 4" and b: "(4::nat) \<le> 64" by simp_all
  have 1: "iterator_range ?xs 0 5 = filter (\<lambda>p. \<not> is_null p) ?xs"
    using t[THEN conjunct1] np by (simp add: Let_def be)
  have "null_free_result 0 ?xs [RowID 0 3, RowID 0 4]"
    using t[THEN conjunct1] np ev by blast
  then have 2: "no_null_row 0 ?xs [RowID 0 3, RowID 0 4]"
    using d by (simp add: null_free_result_def)
  have 3: "no_null_row 0 ?xs (unary_scan (\<lambda>x. x < 3) ?xs 0 [])"
    using t[THEN conjunct2, THEN conjunct1] d by (simp add: null_free_result_def)
  have "\<exists>r. unary_scan_with_value False True 4 True (<) ?xs 3 0 [] = Some r
             \<and> null_free_result 0 ?xs r"
    using t[THEN conjunct2, THEN conjunct2, THEN conjunct1] a b by blast
  then have 4: "\<exists>r. unary_scan_with_value False True 4 True (<) ?xs 3 0 [] = Some r
                    \<and> no_null_row 0 ?xs r"
    using d unfolding null_free_result_def by blast
  have "\<exists>r. binary_scan (<) ?xs (ones 7) 0 [] = Some r \<and> null_free_result 0 ?xs r"
    using t[THEN conjunct2, THEN conjunct2, THEN conjunct2] len by blast
  then have 5: "\<exists>r. binary_scan (<) ?xs (ones 7) 0 [] = Some r \<and> no_null_row 0 ?xs r"
    using d unfolding null_free_result_def by blast
  show ?thesis using np d a b len ev 1 2 3 4 5 by blast
qed

text \<open>
  C6. For a single call of \<open>_unary_scan\<close>, \<open>_unary_scan_with_value\<close> (whichever of its
  two paths runs) or \<open>_binary_scan\<close> on a range whose positions have strictly increasing
  chunk offsets, the chunk offsets of the returned position list increase strictly, in the
  order in which the scan appended them: the list is that of the matching positions in
  their input order, nothing is sorted again.
\<close>

theorem scan_offsets_strictly_increasing:
  assumes inc: "sorted_wrt (<) (map chunk_offset xs)"
  shows "sorted_wrt (<) (map row_offset (unary_scan func xs cid []))
       \<and> unary_scan func xs cid []
         = emit_range cid (filter (\<lambda>p. \<not> is_null p \<and> func (pos_value p)) xs)
       \<and> (3 \<le> sizeof_ValueID \<and> sizeof_ValueID \<le> 64 \<longrightarrow>
            (\<exists>r. unary_scan_with_value IS_DEBUG IsVectorizable sizeof_ValueID LeftIsNullable func2 xs rv cid []
                    = Some r
                \<and> sorted_wrt (<) (map row_offset r)))
       \<and> (length ys = length xs \<longrightarrow>
            (\<exists>r. binary_scan func3 xs ys cid [] = Some r \<and> sorted_wrt (<) (map row_offset r)))"
proof (intro conjI impI)
  have "sorted_wrt (<) (map chunk_offset (filter (\<lambda>p. \<not> is_null p \<and> func (pos_value p)) xs))"
    using inc unfolding sorted_wrt_map by (rule sorted_wrt_filter)
  then show "sorted_wrt (<) (map row_offset (unary_scan func xs cid []))"
    by (simp add: unary_scan_filter row_offset_emit_range)
next
  show "unary_scan func xs cid [] = emit_range cid (filter (\<lambda>p. \<not> is_null p \<and> func (pos_value p)) xs)"
    by (simp add: unary_scan_filter)
next
  assume "3 \<le> sizeof_ValueID \<and> sizeof_ValueID \<le> 64"
  then have sz: "3 \<le> sizeof_ValueID" "sizeof_ValueID \<le> 64" by simp_all
  let ?Q = "\<lambda>p. matches LeftIsNullable func2 rv p \<and> chunk_offset p + 1 \<noteq> 0"
  from unary_scan_with_value_cases[OF sz, of IS_DEBUG IsVectorizable LeftIsNullable func2 xs rv cid "[]"]
  obtain k where k: "unary_scan_with_value IS_DEBUG IsVectorizable sizeof_ValueID LeftIsNullable func2 xs rv cid []
      = Some ([] @ emit_range cid (filter ?Q (take k xs) @ filter (matches LeftIsNullable func2 rv) (drop k xs)))"
    by (elim exE)
  have "sorted_wrt (<) (map chunk_offset (filter ?Q (take k xs) @ filter (matches LeftIsNullable func2 rv) (drop k xs)))"
    by (rule sorted_wrt_filter_take_drop[OF inc])
  then show "\<exists>r. unary_scan_with_value IS_DEBUG IsVectorizable sizeof_ValueID LeftIsNullable func2 xs rv cid []
                    = Some r \<and> sorted_wrt (<) (map row_offset r)"
    unfolding k by (simp add: row_offset_emit_range)
next
  assume len: "length ys = length xs"
  let ?ps = "map fst (filter (\<lambda>(l, r). \<not> is_null l \<and> \<not> is_null r
              \<and> func3 (pos_value l) (pos_value r)) (zip xs ys))"
  have r: "binary_scan func3 xs ys cid [] = Some ([] @ emit_range cid ?ps)"
    by (rule binary_scan_filter[OF len])
  have "sorted_wrt (<) (map chunk_offset ?ps)"
    by (rule sorted_wrt_map_fst_filter_zip[OF inc len])
  then show "\<exists>r. binary_scan func3 xs ys cid [] = Some r \<and> sorted_wrt (<) (map row_offset r)"
    unfolding r by (simp add: row_offset_emit_range)
qed

theorem scan_offsets_strictly_increasing_witness:
  "sorted_wrt (<) (map chunk_offset (ones 17)) \<and> (3::nat) \<le> 4 \<and> (4::nat) \<le> 64
   \<and> length (ones 17) = length (ones 17)
   \<and> sorted_wrt (<) (map row_offset (unary_scan (\<lambda>x. x = 1) (ones 17) 0 []))
   \<and> (\<exists>r. unary_scan_with_value False True 4 True (=) (ones 17) 1 0 [] = Some r
          \<and> sorted_wrt (<) (map row_offset r))
   \<and> (\<exists>r. binary_scan (=) (ones 17) (ones 17) 0 [] = Some r \<and> sorted_wrt (<) (map row_offset r))"
proof -
  have i: "sorted_wrt (<) (map chunk_offset (ones 17))" by code_simp
  note t = scan_offsets_strictly_increasing[OF i, where func = "\<lambda>x. x = 1" and cid = 0
      and sizeof_ValueID = 4 and IS_DEBUG = False and IsVectorizable = True and LeftIsNullable = True
      and ?func2.0 = "(=)" and rv = 1 and ys = "ones 17" and ?func3.0 = "(=)"]
  have a: "(3::nat) \<le> 4" and b: "(4::nat) \<le> 64" by simp_all
  show ?thesis using i a b t by blast
qed




text \<open>
  C10, as amended. The buffer entry of a position is its match flag times
  \<open>chunk_offset + 1\<close> in unsigned 32-bit arithmetic, and a block emits \<open>entry - 1\<close> for
  exactly the entries that are not zero, in order. The match flag is
  \<open>(!LeftIsNullable | !is_null) & func(value, right_value)\<close>, so the claim "emitted if
  and only if non-null and matching" fails for a null position when \<open>LeftIsNullable\<close> is
  false. What holds for every position whose \<open>chunk_offset + 1\<close> does not wrap: it is
  emitted if and only if (\<open>LeftIsNullable\<close> is false or it is not null) and it satisfies
  the comparison, and the emitted offset is its chunk offset. A block has at most 31
  positions (16 in the repository), the flags being shifted as \<open>int\<close>.
\<close>

theorem buffer_entry_decoding:
  assumes "length block \<le> 31"
  shows "scan_block LeftIsNullable func block rv cid out
         = out @ map (\<lambda>entry. RowID cid (entry - 1))
                   (filter (\<lambda>entry. entry \<noteq> 0)
                      (map (\<lambda>p. of_bool ((\<not> LeftIsNullable \<or> \<not> is_null p) \<and> func (pos_value p) rv)
                                  * (chunk_offset p + 1)) block))
       \<and> (\<forall>p\<in>set block. chunk_offset p + 1 \<noteq> 0 \<longrightarrow>
             (buffer_entry LeftIsNullable func rv p \<noteq> 0
                \<longleftrightarrow> (\<not> LeftIsNullable \<or> \<not> is_null p) \<and> func (pos_value p) rv)
           \<and> (buffer_entry LeftIsNullable func rv p \<noteq> 0
                \<longrightarrow> buffer_entry LeftIsNullable func rv p - 1 = chunk_offset p))
       \<and> ((\<forall>p\<in>set block. chunk_offset p + 1 \<noteq> 0) \<longrightarrow>
             scan_block LeftIsNullable func block rv cid out
             = out @ emit_range cid
                 (filter (\<lambda>p. (\<not> LeftIsNullable \<or> \<not> is_null p) \<and> func (pos_value p) rv) block))"
proof (intro conjI)
  show "scan_block LeftIsNullable func block rv cid out
         = out @ map (\<lambda>entry. RowID cid (entry - 1))
                   (filter (\<lambda>entry. entry \<noteq> 0)
                      (map (\<lambda>p. of_bool ((\<not> LeftIsNullable \<or> \<not> is_null p) \<and> func (pos_value p) rv)
                                  * (chunk_offset p + 1)) block))"
    using scan_block_buffer[OF assms, of LeftIsNullable func rv cid out]
    by (simp add: fill_buffer_def buffer_entry_def[abs_def] matches_def)
next
  show "\<forall>p\<in>set block. chunk_offset p + 1 \<noteq> 0 \<longrightarrow>
             (buffer_entry LeftIsNullable func rv p \<noteq> 0
                \<longleftrightarrow> (\<not> LeftIsNullable \<or> \<not> is_null p) \<and> func (pos_value p) rv)
           \<and> (buffer_entry LeftIsNullable func rv p \<noteq> 0
                \<longrightarrow> buffer_entry LeftIsNullable func rv p - 1 = chunk_offset p)"
    by (simp add: buffer_entry_def matches_def)
next
  show "(\<forall>p\<in>set block. chunk_offset p + 1 \<noteq> 0) \<longrightarrow>
             scan_block LeftIsNullable func block rv cid out
             = out @ emit_range cid
                 (filter (\<lambda>p. (\<not> LeftIsNullable \<or> \<not> is_null p) \<and> func (pos_value p) rv) block)"
  proof
    assume nw: "\<forall>p\<in>set block. chunk_offset p + 1 \<noteq> 0"
    have "filter (\<lambda>p. matches LeftIsNullable func rv p \<and> chunk_offset p + 1 \<noteq> 0) block
          = filter (\<lambda>p. (\<not> LeftIsNullable \<or> \<not> is_null p) \<and> func (pos_value p) rv) block"
      using nw by (intro filter_cong refl) (simp add: matches_def)
    then show "scan_block LeftIsNullable func block rv cid out
             = out @ emit_range cid
                 (filter (\<lambda>p. (\<not> LeftIsNullable \<or> \<not> is_null p) \<and> func (pos_value p) rv) block)"
      by (simp add: scan_block_filter[OF assms])
  qed
qed

theorem buffer_entry_decoding_witness:
  "length (ones 16) \<le> 31 \<and> list_all (\<lambda>p. chunk_offset p + 1 \<noteq> 0) (ones 16)
   \<and> scan_block True (=) (ones 16) 1 0 []
     = emit_range 0 (filter (\<lambda>p. (\<not> True \<or> \<not> is_null p) \<and> pos_value p = 1) (ones 16))
   \<and> buffer_entry True (=) 1 (ones 16 ! 3) = 4"
proof -
  have l: "length (ones 16) \<le> 31" by (simp add: ones_def)
  have h: "\<forall>p\<in>set (ones 16). chunk_offset p + 1 \<noteq> 0" by code_simp
  have e: "buffer_entry True (=) 1 (ones 16 ! 3) = 4" by code_simp
  note t = buffer_entry_decoding[OF l, of True "(=)" 1 0 "[]"]
  from t h have "scan_block True (=) (ones 16) 1 0 []
     = [] @ emit_range 0 (filter (\<lambda>p. (\<not> True \<or> \<not> is_null p) \<and> pos_value p = 1) (ones 16))"
    by blast
  then show ?thesis using l h e by (simp add: list_all_iff)
qed

text \<open>
  The claim C10 as stated, at a block that starts with a null position whose value
  satisfies the comparison, scanned with \<open>LeftIsNullable\<close> off: its buffer entry is
  \<open>chunk_offset + 1\<close> and its row is emitted.
\<close>

theorem null_emitted_without_null_check_counterexample:
  "is_null null_position \<and> chunk_offset null_position + 1 \<noteq> 0
   \<and> buffer_entry False (=) (1::int) null_position = 101
   \<and> unary_scan_with_value False True 4 False (=) (null_position # ones 16) (1::int) 0 []
     = Some (RowID 0 (chunk_offset null_position) # emit_range 0 (ones 16))"
  by code_simp

section \<open>Claims about the segment iteration\<close>

text \<open>
  C8. When a position filter is supplied to \<open>segment_with_iterators\<close> (or to
  \<open>segment_for_each\<close>) and the iterable of the segment does not support point access,
  the call fails with the capability error and the functor is not run, under the
  type-erased and under the statically specialized resolution alike, and whether or not
  the data type is resolved first.
\<close>

theorem position_filter_needs_point_access:
  assumes "\<not> is_point_accessible_segment_iterable (create_iterable_from_segment base_segment)"
  shows "segment_with_iterators_filtered IS_DEBUG T type_erasure base_segment (Some position_filter) f
         = Inl NonPointAccessibleWithPositionFilter
       \<and> segment_for_each_filtered IS_DEBUG T type_erasure base_segment (Some position_filter) g st
         = Inl NonPointAccessibleWithPositionFilter"
proof -
  have none: "filtered_positions (iterable base_segment) = None"
    using assms by (simp add: is_point_accessible_segment_iterable_def create_iterable_from_segment_def)
  show ?thesis
    by (simp add: segment_for_each_filtered_def segment_with_iterators_filtered_fails[OF none])
qed

theorem position_filter_needs_point_access_witness:
  "\<not> is_point_accessible_segment_iterable (create_iterable_from_segment sequential_only_segment)
   \<and> segment_with_iterators_filtered False ResolveDataTypeTag OnlyInDebug sequential_only_segment
        (Some [RowID 0 1]) (emit_range 0) = Inl NonPointAccessibleWithPositionFilter
   \<and> segment_with_iterators_filtered False (ColumnDataType ()) Always sequential_only_segment
        (Some [RowID 0 1]) (emit_range 0) = Inl NonPointAccessibleWithPositionFilter"
proof -
  have n: "\<not> is_point_accessible_segment_iterable (create_iterable_from_segment sequential_only_segment)"
    by (simp add: is_point_accessible_segment_iterable_def create_iterable_from_segment_def
        sequential_only_segment_def)
  note t1 = position_filter_needs_point_access[OF n, where IS_DEBUG = False and T = ResolveDataTypeTag
        and type_erasure = OnlyInDebug and position_filter = "[RowID 0 1]" and f = "emit_range 0",
        THEN conjunct1]
  note t2 = position_filter_needs_point_access[OF n, where IS_DEBUG = False and T = "ColumnDataType ()"
        and type_erasure = Always and position_filter = "[RowID 0 1]" and f = "emit_range 0",
        THEN conjunct1]
  show ?thesis using n t1 t2 by (intro conjI)
qed

text \<open>
  C9. With a null position filter, \<open>segment_with_iterators\<close> and \<open>segment_for_each\<close>
  do what the overloads without a position filter do: the functor runs over all positions
  of the segment, and neither the capability check nor an error is reached.
\<close>

theorem null_position_filter_is_no_filter:
  "segment_with_iterators_filtered IS_DEBUG T type_erasure base_segment None f
     = Inr (segment_with_iterators IS_DEBUG T type_erasure base_segment f)
   \<and> segment_with_iterators IS_DEBUG T type_erasure base_segment f
     = f (all_positions (iterable base_segment))
   \<and> segment_for_each_filtered IS_DEBUG T type_erasure base_segment None g st
     = Inr (segment_for_each IS_DEBUG T type_erasure base_segment g st)
   \<and> segment_for_each IS_DEBUG T type_erasure base_segment g st
     = fold g (all_positions (iterable base_segment)) st"
  by (simp add: segment_for_each_filtered_def segment_for_each_def segment_with_iterators_all)

end
